theory Spec2Isabelle
  imports Main "HOL-Library.Multiset" "HOL-Library.Sublist"
begin

section \<open>Strings and POSIX paths\<close>

text \<open>
  Python strings are modelled as \<^typ>\<open>string\<close>. The three string tests the program
  uses are \<^verbatim>\<open>str.startswith\<close>, \<^verbatim>\<open>str.endswith\<close> and equality.
\<close>

definition startswith :: "string \<Rightarrow> string \<Rightarrow> bool" where
  "startswith s pre = (take (length pre) s = pre)"

definition endswith :: "string \<Rightarrow> string \<Rightarrow> bool" where
  "endswith s suf = (length suf \<le> length s \<and> drop (length s - length suf) s = suf)"

text \<open>
  \<^verbatim>\<open>posixpath\<close>: \<^verbatim>\<open>i = p.rfind('/') + 1\<close> cuts a path after its last separator;
  \<^verbatim>\<open>p[:i]\<close> is \<open>upto_last_sep\<close> and \<^verbatim>\<open>p[i:]\<close> is \<open>after_last_sep\<close>.
\<close>

definition sep :: char where
  "sep = CHR ''/''"

definition after_last_sep :: "string \<Rightarrow> string" where
  "after_last_sep p = rev (takeWhile (\<lambda>c. c \<noteq> sep) (rev p))"

definition upto_last_sep :: "string \<Rightarrow> string" where
  "upto_last_sep p = rev (dropWhile (\<lambda>c. c \<noteq> sep) (rev p))"

definition rstrip_sep :: "string \<Rightarrow> string" where
  "rstrip_sep h = rev (dropWhile (\<lambda>c. c = sep) (rev h))"

text \<open>
  \<^verbatim>\<open>os.path.split(p)\<close>: head and tail around the last separator; trailing separators
  are stripped from the head unless the head consists of separators only.
\<close>

definition path_split :: "string \<Rightarrow> string \<times> string" where
  "path_split p =
     (let head = upto_last_sep p; tail = after_last_sep p
      in (if head \<noteq> [] \<and> head \<noteq> replicate (length head) sep then rstrip_sep head else head,
          tail))"

text \<open>\<^verbatim>\<open>os.path.join(a, b)\<close> with two arguments.\<close>

definition path_join :: "string \<Rightarrow> string \<Rightarrow> string" where
  "path_join a b =
     (if startswith b [sep] then b
      else if a = [] \<or> endswith a [sep] then a @ b
      else a @ [sep] @ b)"

text \<open>\<^verbatim>\<open>os.path.basename(p)\<close>.\<close>

definition basename :: "string \<Rightarrow> string" where
  "basename p = after_last_sep p"

text \<open>
  \<^verbatim>\<open>os.path.splitext(p)[0]\<close>: the extension starts at the last dot of the last path
  component, unless that component has only leading dots before it.
\<close>

definition splitext_root :: "string \<Rightarrow> string" where
  "splitext_root p =
     (let name = after_last_sep p;
          stem = rev (dropWhile (\<lambda>c. c \<noteq> CHR ''.'') (rev name))
      in if stem = [] then p
         else if (\<forall>c \<in> set (butlast stem). c = CHR ''.'') then p
         else take (length p - length name + length stem - 1) p)"

text \<open>\<^verbatim>\<open>str(idx)\<close> for a non-negative integer: its decimal digits.\<close>

fun str_nat :: "nat \<Rightarrow> string" where
  "str_nat n = (if n < 10 then [''0123456789'' ! n]
                else str_nat (n div 10) @ [''0123456789'' ! (n mod 10)])"

declare str_nat.simps [simp del]

section \<open>Errors and the file system\<close>

datatype error =
    EnumerationError
  | TypeError
  | IndexError
  | SystemExit
  | ConstructionError
  | ExtractionError
  | FileNotFoundError string
  | IsADirectoryError string
  | KeyError string

text \<open>
  The part of the file system the program touches: regular files with their content, and
  directories. Paths are compared as written (the program builds each path it tests and
  each path it writes by the same expression).
\<close>

record filesystem =
  files :: "string \<rightharpoonup> string"
  dirs :: "string set"

text \<open>\<^verbatim>\<open>os.path.exists(p)\<close>.\<close>

definition path_exists :: "filesystem \<Rightarrow> string \<Rightarrow> bool" where
  "path_exists fs p = (files fs p \<noteq> None \<or> p \<in> dirs fs)"

text \<open>
  \<^verbatim>\<open>open(p, 'w')\<close>: fails when \<open>p\<close> is a directory or when the directory part of \<open>p\<close>
  is named and does not exist; otherwise the file exists afterwards and is empty.
\<close>

definition open_w :: "filesystem \<Rightarrow> string \<Rightarrow> error + filesystem" where
  "open_w fs p =
     (if p \<in> dirs fs then Inl (IsADirectoryError p)
      else if fst (path_split p) \<noteq> [] \<and> fst (path_split p) \<notin> dirs fs
        then Inl (FileNotFoundError p)
      else Inr (fs\<lparr>files := (files fs)(p \<mapsto> [])\<rparr>))"

text \<open>Writing to a file opened for writing replaces its (empty) content.\<close>

definition write_file :: "filesystem \<Rightarrow> string \<Rightarrow> string \<Rightarrow> filesystem" where
  "write_file fs p data = fs\<lparr>files := (files fs)(p \<mapsto> data)\<rparr>"

text \<open>\<^verbatim>\<open>os.remove(p)\<close>.\<close>

definition os_remove :: "filesystem \<Rightarrow> string \<Rightarrow> error + filesystem" where
  "os_remove fs p =
     (if p \<in> dirs fs then Inl (IsADirectoryError p)
      else if files fs p = None then Inl (FileNotFoundError p)
      else Inr (fs\<lparr>files := (files fs)(p := None)\<rparr>))"

section \<open>Document source: which files are dispatched\<close>

definition pdf_directory :: string where
  "pdf_directory = ''/pdfs/''"

text \<open>The result artifact of a work item: \<^verbatim>\<open>os.path.join("ocr_results", os.path.split(f)[1] + '.json')\<close>.\<close>

definition artifact_path :: "string \<Rightarrow> string" where
  "artifact_path f = path_join ''ocr_results'' (snd (path_split f) @ ''.json'')"

text \<open>
  The two list comprehensions at the start of the main program. \<open>names\<close> is what
  \<^verbatim>\<open>os.listdir(pdf_directory)\<close> returned.
\<close>

definition select_pdfs :: "filesystem \<Rightarrow> string list \<Rightarrow> string list" where
  "select_pdfs fs names =
     (let pdf_files = map (path_join pdf_directory) (filter (\<lambda>f. endswith f ''.pdf'') names)
      in filter (\<lambda>f. \<not> path_exists fs (artifact_path f)) pdf_files)"

section \<open>Dispatcher\<close>

text \<open>
  A channel is the sequence of values put on a \<^verbatim>\<open>multiprocessing.Queue\<close>, oldest first;
  \<open>Some path\<close> is a work item and \<open>None\<close> is the shutdown sentinel.
\<close>

type_synonym channel = "string option list"

text \<open>
  A spawned worker process: the device it was started with and the position of its queue
  in \<open>q_list\<close>.
\<close>

record worker =
  w_device :: string
  w_channel :: nat

record dispatcher =
  pdf_files :: "string list"
  devices :: "string list"
  q_list :: "channel list"
  workers :: "worker list"

definition initial :: dispatcher where
  "initial = \<lparr>pdf_files = [], devices = [], q_list = [], workers = []\<rparr>"

text \<open>\<^verbatim>\<open>list.pop()\<close>: removes and returns the last element.\<close>

definition list_pop :: "'a list \<Rightarrow> error + ('a \<times> 'a list)" where
  "list_pop xs = (if xs = [] then Inl IndexError else Inr (last xs, butlast xs))"

text \<open>
  The spawn loop, \<^verbatim>\<open>for i in range(procs)\<close>: a new queue is appended to \<open>q_list\<close>, a
  device is popped, and a worker is started on that device and that queue.
\<close>

fun spawn_workers :: "nat \<Rightarrow> dispatcher \<Rightarrow> error option \<times> dispatcher" where
  "spawn_workers 0 st = (None, st)"
| "spawn_workers (Suc n) st =
     (let st1 = st\<lparr>q_list := q_list st @ [[]]\<rparr>
      in case list_pop (devices st1) of
           Inl e \<Rightarrow> (Some e, st1)
         | Inr (d, ds) \<Rightarrow>
             spawn_workers n
               (st1\<lparr>devices := ds,
                    workers := workers st1 @ [\<lparr>w_device = d, w_channel = length (q_list st)\<rparr>]\<rparr>))"

text \<open>
  \<^verbatim>\<open>for file_path, queue in zip(pdf_files, cycle(q_list)): queue.put(file_path)\<close>.
  \<open>k\<close> is the position of \<^verbatim>\<open>cycle\<close> in \<open>q_list\<close>; it starts at 0 and wraps around at
  the end of the list. Cycling over an empty list yields nothing, so the loop ends at once.
\<close>

fun put_round_robin :: "string list \<Rightarrow> nat \<Rightarrow> channel list \<Rightarrow> channel list" where
  "put_round_robin [] k qs = qs"
| "put_round_robin (f # fs) k qs =
     (if qs = [] then qs
      else put_round_robin fs (if Suc k = length qs then 0 else Suc k)
             (qs[k := qs ! k @ [Some f]]))"

definition distribute :: "dispatcher \<Rightarrow> dispatcher" where
  "distribute st = st\<lparr>q_list := put_round_robin (pdf_files st) 0 (q_list st)\<rparr>"

text \<open>\<^verbatim>\<open>for queue in q_list: queue.put(None)\<close>.\<close>

definition close_channels :: "dispatcher \<Rightarrow> dispatcher" where
  "close_channels st = st\<lparr>q_list := map (\<lambda>q. q @ [None]) (q_list st)\<rparr>"

text \<open>\<^verbatim>\<open>s.split(c)\<close> for a separator of one character: the parts between the separators.\<close>

fun split_on :: "char \<Rightarrow> string \<Rightarrow> string list" where
  "split_on c [] = [[]]"
| "split_on c (x # xs) =
     (if x = c then [] # split_on c xs
      else (case split_on c xs of
              [] \<Rightarrow> [[x]]
            | w # ws \<Rightarrow> (x # w) # ws))"

text \<open>
  The list comprehension \<^verbatim>\<open>[str(int(item)) for item in ...]\<close>: it ends at the first
  item that cannot be converted. \<open>str_int\<close> is \<^verbatim>\<open>str(int(item))\<close>, Python's reading and
  printing of integers.
\<close>

fun convert_items :: "(string \<Rightarrow> error + string) \<Rightarrow> string list \<Rightarrow> error + string list" where
  "convert_items str_int [] = Inr []"
| "convert_items str_int (item # items) =
     (case str_int item of
        Inl e \<Rightarrow> Inl e
      | Inr d \<Rightarrow>
          (case convert_items str_int items of
             Inl e \<Rightarrow> Inl e
           | Inr ds \<Rightarrow> Inr (d # ds)))"

text \<open>
  \<^verbatim>\<open>parse_command()\<close>. \<open>arg\<close> is the text given to the \<^verbatim>\<open>--on\<close> option, if the option
  is there. When an item cannot be converted, the argument parser reports the error and
  exits the program.
\<close>

definition parse_command :: "(string \<Rightarrow> error + string) \<Rightarrow> string option
    \<Rightarrow> error + string list option" where
  "parse_command str_int arg =
     (case arg of
        None \<Rightarrow> Inr None
      | Some s \<Rightarrow>
          (case convert_items str_int (split_on CHR '','' s) of
             Inl e \<Rightarrow> Inl SystemExit
           | Inr ds \<Rightarrow> Inr (Some ds)))"

text \<open>
  The main program up to the point where it waits for the workers. \<open>listing\<close> is the
  outcome of \<^verbatim>\<open>os.listdir\<close>, \<open>on\<close> the outcome of \<^verbatim>\<open>parse_command()\<close> (the device
  list, or \<open>None\<close> when the option is absent). The result is
  the exception that ended the program, if any, and the state reached. Console output and
  the measured times are not part of the state.
\<close>

definition main :: "error + string list \<Rightarrow> filesystem \<Rightarrow> error + string list option
    \<Rightarrow> error option \<times> dispatcher" where
  "main listing fs on =
     (case listing of
        Inl e \<Rightarrow> (Some e, initial)
      | Inr names \<Rightarrow>
          (let st = initial\<lparr>pdf_files := select_pdfs fs names\<rparr>
           in case on of
                Inl e \<Rightarrow> (Some e, st)
              | Inr None \<Rightarrow> (Some TypeError, st)
              | Inr (Some devs) \<Rightarrow>
                  (case spawn_workers (length devs) (st\<lparr>devices := devs\<rparr>) of
                     (Some e, st') \<Rightarrow> (Some e, st')
                   | (None, st') \<Rightarrow> (None, close_channels (distribute st')))))"

section \<open>JSON text of a string\<close>

text \<open>
  \<^verbatim>\<open>json.dump(s, f)\<close> for a string \<open>s\<close>, with the default \<^verbatim>\<open>ensure_ascii=True\<close>: the
  string between double quotes, where the quote, the backslash and the five control
  characters with a short form are escaped by a backslash, printable ASCII stands for
  itself, and every other character is written \<^verbatim>\<open>\uXXXX\<close> with four lower-case
  hexadecimal digits. A \<^typ>\<open>char\<close> is a code point below 256, so the first two digits
  are zero.
\<close>

definition hexdigits :: string where
  "hexdigits = ''0123456789abcdef''"

definition json_escape :: "char \<Rightarrow> string" where
  "json_escape c =
     (if c = CHR 0x22 then [CHR 0x5C, CHR 0x22]
      else if c = CHR 0x5C then [CHR 0x5C, CHR 0x5C]
      else if c = CHR 0x0A then [CHR 0x5C, CHR ''n'']
      else if c = CHR 0x0D then [CHR 0x5C, CHR ''r'']
      else if c = CHR 0x09 then [CHR 0x5C, CHR ''t'']
      else if c = CHR 0x08 then [CHR 0x5C, CHR ''b'']
      else if c = CHR 0x0C then [CHR 0x5C, CHR ''f'']
      else if 32 \<le> (of_char c :: nat) \<and> (of_char c :: nat) \<le> 126 then [c]
      else [CHR 0x5C, CHR ''u'', CHR ''0'', CHR ''0'',
            hexdigits ! ((of_char c :: nat) div 16), hexdigits ! ((of_char c :: nat) mod 16)])"

definition json_dumps :: "string \<Rightarrow> string" where
  "json_dumps s = [CHR 0x22] @ concat (map json_escape s) @ [CHR 0x22]"

text \<open>
  Reading a JSON string back (\<^verbatim>\<open>json.loads\<close> on a text that is one string literal), to
  say what an artifact decodes to. An escape that names a code point of 256 or more has
  no \<^typ>\<open>char\<close> and is refused.
\<close>

definition hexval :: "char \<Rightarrow> nat option" where
  "hexval c =
     (let n = (of_char c :: nat)
      in if 48 \<le> n \<and> n \<le> 57 then Some (n - 48)
         else if 97 \<le> n \<and> n \<le> 102 then Some (n - 87)
         else if 65 \<le> n \<and> n \<le> 70 then Some (n - 55)
         else None)"

definition short_escape :: "char \<Rightarrow> char option" where
  "short_escape e =
     (if e = CHR 0x22 then Some (CHR 0x22)
      else if e = CHR 0x5C then Some (CHR 0x5C)
      else if e = CHR ''/'' then Some (CHR ''/'')
      else if e = CHR ''n'' then Some (CHR 0x0A)
      else if e = CHR ''r'' then Some (CHR 0x0D)
      else if e = CHR ''t'' then Some (CHR 0x09)
      else if e = CHR ''b'' then Some (CHR 0x08)
      else if e = CHR ''f'' then Some (CHR 0x0C)
      else None)"

fun json_unescape :: "string \<Rightarrow> string option" where
  "json_unescape [] = Some []"
| "json_unescape (c # cs) =
     (if c = CHR 0x5C then
        (case cs of
           [] \<Rightarrow> None
         | e # r \<Rightarrow>
             (if e = CHR ''u'' then
                (case r of
                   h1 # h2 # h3 # h4 # r' \<Rightarrow>
                     (case (hexval h1, hexval h2, hexval h3, hexval h4) of
                        (Some a, Some b, Some x, Some y) \<Rightarrow>
                          (if a = 0 \<and> b = 0
                           then map_option ((#) (char_of (16 * x + y))) (json_unescape r')
                           else None)
                      | _ \<Rightarrow> None)
                 | _ \<Rightarrow> None)
              else (case short_escape e of
                      None \<Rightarrow> None
                    | Some x \<Rightarrow> map_option ((#) x) (json_unescape r))))
      else if c = CHR 0x22 \<or> (of_char c :: nat) < 32 then None
      else map_option ((#) c) (json_unescape cs))"

definition json_loads :: "string \<Rightarrow> string option" where
  "json_loads s =
     (case s of
        [] \<Rightarrow> None
      | q # rest \<Rightarrow>
          (if q = CHR 0x22 \<and> rest \<noteq> [] \<and> last rest = CHR 0x22
           then json_unescape (butlast rest) else None))"

section \<open>Device worker\<close>

text \<open>A \<^verbatim>\<open>Document\<close>: its text and the two entries of its metadata.\<close>

record document =
  page_content :: string
  metadata_source :: string
  metadata_page :: nat

text \<open>
  What \<^verbatim>\<open>loader.load()\<close> does for the file path the loader holds. The loader class is
  not part of the program text; its constructor \<open>Pix2TextLoader path device\<close> and the
  loader it returns are parameters of the worker.
\<close>

type_synonym loader = "string \<Rightarrow> error + document list"

text \<open>
  What a worker does, in order. \<open>Construct\<close> and \<open>Extract\<close> record the value of
  \<^verbatim>\<open>CUDA_VISIBLE_DEVICES\<close> in the process environment at the time of the call.
\<close>

datatype event =
    SetEnv string string
  | Construct string string "string option"
  | Get "string option"
  | Extract string "string option"
  | Write string string

text \<open>
  How a worker ends: it returns, an exception ends it, or it waits for ever on an empty
  queue.
\<close>

datatype outcome = Returned | Raised error | Blocked

record wstate =
  environ :: "string \<rightharpoonup> string"
  wfs :: filesystem
  trace :: "event list"
  inbox :: channel

definition visible_devices :: string where
  "visible_devices = ''CUDA_VISIBLE_DEVICES''"

definition blank_line :: string where
  "blank_line = [CHR 0x0A, CHR 0x0A]"

text \<open>\<^verbatim>\<open>for doc in documents: s += doc.page_content; s += '\n\n'\<close>.\<close>

fun concat_pages :: "document list \<Rightarrow> string \<Rightarrow> string" where
  "concat_pages [] s = s"
| "concat_pages (doc # documents) s = concat_pages documents (s @ page_content doc @ blank_line)"

text \<open>
  The \<^verbatim>\<open>while True\<close> loop of \<^verbatim>\<open>process_pdf\<close>. The second argument is what is on the
  queue and what will still be put on it, oldest first; \<^verbatim>\<open>q.get()\<close> takes its head and
  waits when there is none. The file system is the worker's own view of it: what other
  processes write meanwhile is not part of it. Console output and the measured times are
  left out.
\<close>

fun worker_loop :: "loader \<Rightarrow> channel \<Rightarrow> wstate \<Rightarrow> outcome \<times> wstate" where
  "worker_loop load [] st = (Blocked, st\<lparr>inbox := []\<rparr>)"
| "worker_loop load (None # q) st =
     (Returned, st\<lparr>trace := trace st @ [Get None], inbox := q\<rparr>)"
| "worker_loop load (Some file_path # q) st =
     (let st1 = st\<lparr>trace := trace st @
                  [Get (Some file_path), Extract file_path (environ st visible_devices)],
                inbox := q\<rparr>
      in case load file_path of
           Inl e \<Rightarrow> (Raised e, st1)
         | Inr documents \<Rightarrow>
             (let target = path_join ''ocr_results'' (snd (path_split file_path) @ ''.json'')
              in case open_w (wfs st1) target of
                   Inl e \<Rightarrow> (Raised e, st1)
                 | Inr fs1 \<Rightarrow>
                     (let s = concat_pages documents []
                      in worker_loop load q
                           (st1\<lparr>wfs := write_file fs1 target (json_dumps s),
                                trace := trace st1 @ [Write target (json_dumps s)]\<rparr>))))"

definition initial_path :: string where
  "initial_path = ''./1685435898.9404118_herd-scharfstein.pdf''"

text \<open>
  \<^verbatim>\<open>process_pdf(device, q)\<close>, started in a process whose environment is \<open>env\<close> on the
  file system \<open>fs\<close>.
\<close>

definition process_pdf :: "(string \<Rightarrow> string \<Rightarrow> error + loader) \<Rightarrow> (string \<rightharpoonup> string)
    \<Rightarrow> filesystem \<Rightarrow> string \<Rightarrow> channel \<Rightarrow> outcome \<times> wstate" where
  "process_pdf Pix2TextLoader env fs device q =
     (let st0 = \<lparr>environ = env(visible_devices \<mapsto> device), wfs = fs,
                 trace = [SetEnv visible_devices device], inbox = q\<rparr>;
          st1 = st0\<lparr>trace := trace st0 @
                  [Construct initial_path device (environ st0 visible_devices)]\<rparr>
      in case Pix2TextLoader initial_path device of
           Inl e \<Rightarrow> (Raised e, st1)
         | Inr loader \<Rightarrow> worker_loop loader q st1)"

text \<open>What a trace says the worker took from its queue, in order.\<close>

fun gets :: "event list \<Rightarrow> string option list" where
  "gets [] = []"
| "gets (Get x # evs) = x # gets evs"
| "gets (_ # evs) = gets evs"

text \<open>The events that set the device binding or construct an extraction strategy.\<close>

fun binding :: "event \<Rightarrow> bool" where
  "binding (SetEnv k v) = True"
| "binding (Construct p d v) = True"
| "binding _ = False"

text \<open>The device restriction in effect at each call of the extraction strategy.\<close>

fun extractions :: "event list \<Rightarrow> string option list" where
  "extractions [] = []"
| "extractions (Extract p v # evs) = v # extractions evs"
| "extractions (_ # evs) = extractions evs"

text \<open>The artifacts a trace says were written, with their content, in order.\<close>

fun writes :: "event list \<Rightarrow> (string \<times> string) list" where
  "writes [] = []"
| "writes (Write p c # evs) = (p, c) # writes evs"
| "writes (_ # evs) = writes evs"

section \<open>Pix2Text parser\<close>

text \<open>
  One recognised segment of a page image is a dictionary; the parser reads its keys
  \<^verbatim>\<open>'type'\<close> and \<^verbatim>\<open>'text'\<close>. Reading a key that is absent raises \<^verbatim>\<open>KeyError\<close>.
\<close>

type_synonym out = "string \<rightharpoonup> string"

definition getitem :: "out \<Rightarrow> string \<Rightarrow> error + string" where
  "getitem out key = (case out key of None \<Rightarrow> Inl (KeyError key) | Some v \<Rightarrow> Inr v)"

text \<open>
  The loop \<^verbatim>\<open>for out in outs\<close> with its three accumulators, in the order of the
  source's tests: footer, header, reference, anything else.
\<close>

fun collect_text :: "out list \<Rightarrow> string \<Rightarrow> string \<Rightarrow> string
    \<Rightarrow> error + (string \<times> string \<times> string)" where
  "collect_text [] header_text footer_text body_text = Inr (header_text, footer_text, body_text)"
| "collect_text (out # outs) header_text footer_text body_text =
     (case getitem out ''type'' of
        Inl e \<Rightarrow> Inl e
      | Inr ty \<Rightarrow>
          (if ty = ''Footer'' then
             (case getitem out ''text'' of
                Inl e \<Rightarrow> Inl e
              | Inr t \<Rightarrow> collect_text outs header_text (footer_text @ t) body_text)
           else if ty = ''Header'' then
             (case getitem out ''text'' of
                Inl e \<Rightarrow> Inl e
              | Inr t \<Rightarrow> collect_text outs (header_text @ t) footer_text body_text)
           else if ty = ''Reference'' then
             collect_text outs header_text footer_text body_text
           else
             (case getitem out ''text'' of
                Inl e \<Rightarrow> Inl e
              | Inr t \<Rightarrow> collect_text outs header_text footer_text (body_text @ t))))"

definition only_text :: "out list \<Rightarrow> error + string" where
  "only_text outs =
     (case collect_text outs [] [] [] of
        Inl e \<Rightarrow> Inl e
      | Inr (header_text, footer_text, body_text) \<Rightarrow>
          Inr (header_text @ blank_line @ body_text @ blank_line @ footer_text @ blank_line))"

text \<open>\<^verbatim>\<open>pdf_name + '_page_' + str(idx) + '.png'\<close>.\<close>

definition page_image :: "string \<Rightarrow> nat \<Rightarrow> string" where
  "page_image pdf_name idx = pdf_name @ ''_page_'' @ str_nat idx @ ''.png''"

record blob =
  blob_path :: string
  blob_source :: string

text \<open>What the parser does to the file system and to its consumer, in order.\<close>

datatype pevent =
    Saved string
  | Recognised string
  | Removed string
  | Yielded document

record pstate =
  pfs :: filesystem
  ptrace :: "pevent list"

text \<open>
  The loop \<^verbatim>\<open>for idx, page in enumerate(doc)\<close>. \<open>get_pixmap\<close> renders a page to the
  bytes of its image, \<open>p2t\<close> is the recogniser applied to the bytes it reads from the
  image file; both are libraries outside the program text.
\<close>

fun parse_pages :: "('page \<Rightarrow> error + string) \<Rightarrow> (string \<Rightarrow> error + out list) \<Rightarrow> string
    \<Rightarrow> string \<Rightarrow> 'page list \<Rightarrow> nat \<Rightarrow> pstate \<Rightarrow> error option \<times> pstate" where
  "parse_pages get_pixmap p2t pdf_name source [] idx st = (None, st)"
| "parse_pages get_pixmap p2t pdf_name source (page # doc) idx st =
     (case get_pixmap page of
        Inl e \<Rightarrow> (Some e, st)
      | Inr pix \<Rightarrow>
          (case open_w (pfs st) (page_image pdf_name idx) of
             Inl e \<Rightarrow> (Some e, st)
           | Inr fs0 \<Rightarrow>
               (let st1 = st\<lparr>pfs := write_file fs0 (page_image pdf_name idx) pix,
                             ptrace := ptrace st @ [Saved (page_image pdf_name idx)]\<rparr>
                in case (case files (pfs st1) (page_image pdf_name idx) of
                           None \<Rightarrow> Inl (FileNotFoundError (page_image pdf_name idx))
                         | Some png \<Rightarrow> p2t png) of
                     Inl e \<Rightarrow> (Some e, st1)
                   | Inr outs \<Rightarrow>
                       (let st2 = st1\<lparr>ptrace := ptrace st1 @
                                      [Recognised (page_image pdf_name idx)]\<rparr>
                        in case only_text outs of
                             Inl e \<Rightarrow> (Some e, st2)
                           | Inr text \<Rightarrow>
                               (case os_remove (pfs st2) (page_image pdf_name idx) of
                                  Inl e \<Rightarrow> (Some e, st2)
                                | Inr fs3 \<Rightarrow>
                                    parse_pages get_pixmap p2t pdf_name source doc (Suc idx)
                                      (st2\<lparr>pfs := fs3,
                                           ptrace := ptrace st2 @
                                             [Removed (page_image pdf_name idx),
                                              Yielded \<lparr>page_content = text,
                                                       metadata_source = source,
                                                       metadata_page = idx + 1\<rparr>]\<rparr>))))))"

text \<open>
  \<^verbatim>\<open>Pix2TextParser.lazy_parse(blob)\<close>, run to the end of the document. \<open>fitz_open\<close> opens
  the file and gives its pages.
\<close>

definition lazy_parse :: "(string \<Rightarrow> error + 'page list) \<Rightarrow> ('page \<Rightarrow> error + string)
    \<Rightarrow> (string \<Rightarrow> error + out list) \<Rightarrow> blob \<Rightarrow> filesystem \<Rightarrow> error option \<times> pstate" where
  "lazy_parse fitz_open get_pixmap p2t blob fs =
     (let file_path = blob_path blob
      in case fitz_open file_path of
           Inl e \<Rightarrow> (Some e, \<lparr>pfs = fs, ptrace = []\<rparr>)
         | Inr doc \<Rightarrow>
             (let pdf_name_ext = basename file_path;
                  pdf_name = splitext_root pdf_name_ext
              in parse_pages get_pixmap p2t pdf_name (blob_source blob) doc 0
                   \<lparr>pfs = fs, ptrace = []\<rparr>))"

text \<open>The documents a run of the parser handed to its consumer, in order.\<close>

fun yielded :: "pevent list \<Rightarrow> document list" where
  "yielded [] = []"
| "yielded (Yielded d # evs) = d # yielded evs"
| "yielded (_ # evs) = yielded evs"

text \<open>
  The text the parser gives a page when nothing fails: the rendered image goes through
  the recogniser and its segments through \<open>only_text\<close>.
\<close>

definition page_text :: "('page \<Rightarrow> error + string) \<Rightarrow> (string \<Rightarrow> error + out list) \<Rightarrow> 'page
    \<Rightarrow> string" where
  "page_text get_pixmap p2t page = projr (only_text (projr (p2t (projr (get_pixmap page)))))"

text \<open>The events of one page that is parsed without failure.\<close>

definition page_events :: "string \<Rightarrow> string \<Rightarrow> nat \<Rightarrow> string \<Rightarrow> pevent list" where
  "page_events pdf_name source idx text =
     [Saved (page_image pdf_name idx), Recognised (page_image pdf_name idx),
      Removed (page_image pdf_name idx),
      Yielded \<lparr>page_content = text, metadata_source = source, metadata_page = idx + 1\<rparr>]"

text \<open>
  The content of a page as a grouping of its segments: the texts of the headers, of the
  body segments and of the footers, each group in the order of the segments and followed
  by a blank line.
\<close>

definition grouped_text :: "out list \<Rightarrow> string" where
  "grouped_text outs =
     concat (map (\<lambda>out. the (out ''text''))
       (filter (\<lambda>out. out ''type'' = Some ''Header'') outs)) @ blank_line @
     concat (map (\<lambda>out. the (out ''text''))
       (filter (\<lambda>out. out ''type'' \<notin> {Some ''Footer'', Some ''Header'', Some ''Reference''})
          outs)) @ blank_line @
     concat (map (\<lambda>out. the (out ''text''))
       (filter (\<lambda>out. out ''type'' = Some ''Footer'') outs)) @ blank_line"

section \<open>Properties of the dispatcher\<close>

lemma length_put_round_robin: "length (put_round_robin L k qs) = length qs"
  by (induction L arbitrary: k qs) auto

lemma put_round_robin_nth:
  "k < length qs \<Longrightarrow> j < length qs \<Longrightarrow>
   put_round_robin L k qs ! j =
     qs ! j @ map Some (map ((!) L) (filter (\<lambda>i. (k + i) mod length qs = j) [0..<length L]))"
proof (induction L arbitrary: k qs)
  case Nil
  then show ?case by simp
next
  case (Cons f fs)
  let ?N = "length qs"
  let ?k' = "if Suc k = ?N then 0 else Suc k"
  let ?qs' = "qs[k := qs ! k @ [Some f]]"
  from Cons.prems have ne: "qs \<noteq> []" by auto
  have k': "?k' < length ?qs'" using Cons.prems by auto
  have j': "j < length ?qs'" using Cons.prems by simp
  have step: "(?k' + i) mod ?N = (k + Suc i) mod ?N" for i
  proof (cases "Suc k = ?N")
    case True
    then have "k + Suc i = i + ?N" by simp
    then have b: "(k + Suc i) mod ?N = i mod ?N" by (simp only: mod_add_self2)
    have a: "?k' = 0" using True by simp
    show ?thesis by (simp only: a b add_0)
  next
    case False
    then show ?thesis by simp
  qed
  have upt: "[0..<length (f # fs)] = 0 # map Suc [0..<length fs]"
    by (simp add: upt_conv_Cons map_Suc_upt del: upt_Suc)
  have IH: "put_round_robin fs ?k' ?qs' ! j =
     ?qs' ! j @ map Some (map ((!) fs) (filter (\<lambda>i. (?k' + i) mod ?N = j) [0..<length fs]))"
    using Cons.IH [OF k' j'] by simp
  have k0: "(k + 0) mod ?N = k" using Cons.prems by simp
  show ?case
    using ne IH Cons.prems k0
    by (simp only: put_round_robin.simps upt if_False step list.map filter.simps filter_map
          o_def map_map nth_Cons_Suc nth_Cons_0)
       (auto simp: nth_list_update)
qed


lemma mset_concat_put:
  "k < length qs \<Longrightarrow> mset (concat (qs[k := qs ! k @ [x]])) = mset (concat qs) + {#x#}"
proof -
  assume k: "k < length qs"
  have a: "qs[k := qs ! k @ [x]] = take k qs @ (qs ! k @ [x]) # drop (Suc k) qs"
    using k by (rule upd_conv_take_nth_drop)
  have b: "concat qs = concat (take k qs @ qs ! k # drop (Suc k) qs)"
    using k by (simp only: id_take_nth_drop [symmetric])
  show ?thesis unfolding a b by simp
qed

lemma mset_put_round_robin:
  "k < length qs \<Longrightarrow>
   mset (concat (put_round_robin L k qs)) = mset (concat qs) + mset (map Some L)"
proof (induction L arbitrary: k qs)
  case Nil
  then show ?case by simp
next
  case (Cons f fs)
  let ?k' = "if Suc k = length qs then 0 else Suc k"
  let ?qs' = "qs[k := qs ! k @ [Some f]]"
  from Cons.prems have ne: "qs \<noteq> []" by auto
  have k': "?k' < length ?qs'" using Cons.prems by auto
  have "mset (concat (put_round_robin fs ?k' ?qs')) = mset (concat ?qs') + mset (map Some fs)"
    by (rule Cons.IH [OF k'])
  then show ?case using ne Cons.prems by (simp add: mset_concat_put)
qed

lemma subseq_pick: "subseq (map ((!) L) (filter P [0..<length L])) L"
proof -
  have "subseq (map ((!) L) (filter P [0..<length L])) (map ((!) L) [0..<length L])"
    by (intro subseq_map subseq_filter_left)
  then show ?thesis by (simp only: map_nth)
qed

lemma concat_replicate_Nil: "concat (replicate n []) = []"
  by (induction n) auto

lemma spawn_workers_ok:
  "n \<le> length (devices st) \<Longrightarrow>
   spawn_workers n st =
     (None, st\<lparr>q_list := q_list st @ replicate n [],
               devices := take (length (devices st) - n) (devices st),
               workers := workers st @
                 map (\<lambda>i. \<lparr>w_device = devices st ! (length (devices st) - 1 - i),
                           w_channel = length (q_list st) + i\<rparr>) [0..<n]\<rparr>)"
proof (induction n arbitrary: st)
  case 0
  then show ?case by simp
next
  case (Suc n)
  let ?ds = "devices st"
  from Suc.prems have ne: "?ds \<noteq> []" by auto
  let ?st2 = "st\<lparr>q_list := q_list st @ [[]], devices := butlast ?ds,
      workers := workers st @ [\<lparr>w_device = last ?ds, w_channel = length (q_list st)\<rparr>]\<rparr>"
  have le: "n \<le> length (devices ?st2)" using Suc.prems by simp
  have unf: "spawn_workers (Suc n) st = spawn_workers n ?st2"
    using ne by (simp add: list_pop_def)
  have last: "last ?ds = ?ds ! (length ?ds - 1 - 0)" using ne by (simp add: last_conv_nth)
  have nth: "butlast ?ds ! (length ?ds - Suc (Suc i)) = ?ds ! (length ?ds - Suc (Suc i))"
    if "i < n" for i
    using that Suc.prems by (simp add: nth_butlast)
  have upt: "[0..<Suc n] = 0 # map Suc [0..<n]"
    by (simp add: upt_conv_Cons map_Suc_upt del: upt_Suc)
  have tk: "take (length ?ds - Suc n) (butlast ?ds) = take (length ?ds - Suc n) ?ds"
    using ne by (simp add: take_butlast)
  show ?case
    unfolding unf Suc.IH [OF le] upt
    using last nth tk
    by (simp add: replicate_app_Cons_same o_def)
qed


lemma main_ok:
  "main (Inr names) fs (Inr (Some devs)) =
     (None, close_channels (distribute
        \<lparr>pdf_files = select_pdfs fs names, devices = [],
         q_list = replicate (length devs) [],
         workers = map (\<lambda>i. \<lparr>w_device = devs ! (length devs - 1 - i), w_channel = i\<rparr>)
                     [0..<length devs]\<rparr>))"
proof -
  let ?st = "initial\<lparr>pdf_files := select_pdfs fs names, devices := devs\<rparr>"
  have le: "length devs \<le> length (devices ?st)" by simp
  show ?thesis
    unfolding main_def
    by (simp add: spawn_workers_ok [OF le] Let_def) (simp add: initial_def)
qed

lemma join_pdf_directory: "sep \<notin> set n \<Longrightarrow> path_join pdf_directory n = pdf_directory @ n"
  by (cases n) (auto simp: path_join_def pdf_directory_def startswith_def endswith_def sep_def)

lemma after_last_sep_append:
  assumes "sep \<notin> set n"
  shows "after_last_sep (a @ [sep] @ n) = n"
proof -
  have "takeWhile (\<lambda>c. c \<noteq> sep) (rev n @ sep # rev a) =
        rev n @ takeWhile (\<lambda>c. c \<noteq> sep) (sep # rev a)"
    by (rule takeWhile_append2) (use assms in auto)
  then show ?thesis by (simp add: after_last_sep_def)
qed

lemma split_pdf_directory:
  assumes "sep \<notin> set n"
  shows "snd (path_split (pdf_directory @ n)) = n"
proof -
  have eq: "pdf_directory @ n = ''/pdfs'' @ [sep] @ n" by (simp add: pdf_directory_def sep_def)
  have "after_last_sep (pdf_directory @ n) = n"
    unfolding eq by (rule after_last_sep_append [OF assms])
  then show ?thesis by (simp add: path_split_def Let_def)
qed

lemma artifact_path_pdf:
  assumes "sep \<notin> set n"
  shows "artifact_path (pdf_directory @ n) = ''ocr_results/'' @ n @ ''.json''"
proof -
  have "path_join ''ocr_results'' (n @ ''.json'') = ''ocr_results/'' @ n @ ''.json''"
    using assms
    by (cases n) (auto simp: path_join_def startswith_def endswith_def sep_def)
  then show ?thesis
    unfolding artifact_path_def split_pdf_directory [OF assms] .
qed

lemma select_pdfs_eq:
  assumes "\<forall>n \<in> set names. sep \<notin> set n"
  shows "select_pdfs fs names =
     map (\<lambda>n. pdf_directory @ n)
       (filter (\<lambda>n. endswith n ''.pdf'' \<and> \<not> path_exists fs (''ocr_results/'' @ n @ ''.json''))
          names)"
  using assms
proof (induction names)
  case Nil
  then show ?case by (simp add: select_pdfs_def)
next
  case (Cons n ns)
  then have n: "sep \<notin> set n" and IH: "select_pdfs fs ns =
     map (\<lambda>n. pdf_directory @ n)
       (filter (\<lambda>n. endswith n ''.pdf'' \<and> \<not> path_exists fs (''ocr_results/'' @ n @ ''.json''))
          ns)" by auto
  show ?case
    using IH by (simp add: select_pdfs_def join_pdf_directory [OF n] artifact_path_pdf [OF n])
qed

section \<open>Round-robin distribution\<close>

text \<open>
  Claim C1. For a list of work items and \<open>N \<ge> 1\<close> workers whose channels are empty, the
  distribution loop leaves \<open>N\<close> channels; channel \<open>j\<close> holds exactly the items whose index
  \<open>i\<close> has \<open>i mod N = j\<close>, in the order of the list, so the item at index \<open>i\<close> is on the
  channel of worker \<open>i mod N\<close>; all channels together hold the items of the list, each as
  often as the list does; and every channel is a subsequence of the list.
\<close>

theorem distribute_round_robin:
  assumes "1 \<le> N" and "q_list st = replicate N []"
  shows "length (q_list (distribute st)) = N \<and>
    (\<forall>j<N. q_list (distribute st) ! j =
        map Some (map ((!) (pdf_files st))
          (filter (\<lambda>i. i mod N = j) [0..<length (pdf_files st)]))) \<and>
    (\<forall>i<length (pdf_files st).
        Some (pdf_files st ! i) \<in> set (q_list (distribute st) ! (i mod N))) \<and>
    mset (concat (q_list (distribute st))) = mset (map Some (pdf_files st)) \<and>
    (\<forall>j<N. subseq (q_list (distribute st) ! j) (map Some (pdf_files st)))"
proof -
  let ?L = "pdf_files st"
  let ?Q = "q_list (distribute st)"
  have Q: "?Q = put_round_robin ?L 0 (replicate N [])"
    using assms(2) by (simp add: distribute_def)
  have len: "length ?Q = N"
    unfolding Q by (simp add: length_put_round_robin)
  have nth: "?Q ! j = map Some (map ((!) ?L) (filter (\<lambda>i. i mod N = j) [0..<length ?L]))"
    if "j < N" for j
    unfolding Q using put_round_robin_nth [of 0 "replicate N []" j ?L] that assms(1)
    by simp
  have mem: "Some (?L ! i) \<in> set (?Q ! (i mod N))" if "i < length ?L" for i
  proof -
    have "i mod N < N" using assms(1) by simp
    then show ?thesis using that by (simp add: nth)
  qed
  have ms: "mset (concat ?Q) = mset (map Some ?L)"
    unfolding Q using mset_put_round_robin [of 0 "replicate N []" ?L] assms(1)
    by (simp add: concat_replicate_Nil)
  have sub: "subseq (?Q ! j) (map Some ?L)" if "j < N" for j
    unfolding nth [OF that] by (intro subseq_map subseq_pick)
  show ?thesis using len nth mem ms sub by blast
qed

theorem distribute_round_robin_witness:
  "q_list (distribute \<lparr>pdf_files = [''x.pdf'', ''y.pdf'', ''z.pdf''], devices = [],
       q_list = [[], []], workers = []\<rparr>)
     = [[Some ''x.pdf'', Some ''z.pdf''], [Some ''y.pdf'']]"
proof -
  let ?st = "\<lparr>pdf_files = [''x.pdf'', ''y.pdf'', ''z.pdf''], devices = [],
       q_list = [[], []], workers = []\<rparr>"
  have h1: "(1::nat) \<le> 2" by simp
  have h2: "q_list ?st = replicate 2 []" by (simp add: numeral_2_eq_2)
  note T = distribute_round_robin [OF h1 h2]
  from T have len: "length (q_list (distribute ?st)) = 2" by blast
  from T have "q_list (distribute ?st) ! 0 =
      map Some (map ((!) (pdf_files ?st)) (filter (\<lambda>i. i mod 2 = 0) [0..<length (pdf_files ?st)]))"
    by simp
  then have q0: "q_list (distribute ?st) ! 0 = [Some ''x.pdf'', Some ''z.pdf'']"
    by (simp add: upt_rec)
  from T have "q_list (distribute ?st) ! 1 =
      map Some (map ((!) (pdf_files ?st)) (filter (\<lambda>i. i mod 2 = 1) [0..<length (pdf_files ?st)]))"
    by simp
  then have q1: "q_list (distribute ?st) ! 1 = [Some ''y.pdf'']"
    by (simp add: upt_rec)
  show ?thesis
    using len q0 q1 by (auto simp: list_eq_iff_nth_eq less_Suc_eq numeral_2_eq_2)
qed

lemma length_split_on: "length (split_on c s) = Suc (count_list s c)"
  by (induction s) (auto split: list.splits)

lemma convert_items_Inr:
  "convert_items str_int items = Inr ds \<Longrightarrow> map Inr ds = map str_int items"
  by (induction items arbitrary: ds) (auto split: sum.splits)

lemma parse_command_Some:
  assumes "parse_command str_int (Some s) = Inr (Some devs)"
  shows "length devs = Suc (count_list s CHR '','')"
    and "map Inr devs = map str_int (split_on CHR '','' s)"
proof -
  from assms have c: "convert_items str_int (split_on CHR '','' s) = Inr devs"
    by (auto simp: parse_command_def split: sum.splits)
  from convert_items_Inr [OF c] show m: "map Inr devs = map str_int (split_on CHR '','' s)" .
  have "length devs = length (map Inr devs :: (error + string) list)" by simp
  also have "\<dots> = length (split_on CHR '','' s)" unfolding m by simp
  finally show "length devs = Suc (count_list s CHR '','')" by (simp add: length_split_on)
qed

section \<open>Spawning the workers\<close>

text \<open>
  Claim C2, as amended. Given a device list with \<open>N\<close> entries the main program spawns
  exactly \<open>N\<close> workers, one device each, and takes the devices from the end of the list:
  the devices of the workers in spawn order are the device list reversed, so the worker
  spawned \<open>i\<close>-th (counting from 0) is bound to entry \<open>N - 1 - i\<close> of the list, and its
  channel is the \<open>i\<close>-th. When the device list comes from the text of the \<^verbatim>\<open>--on\<close>
  option, it has one entry per comma-separated item of the text, in the order of the
  text, each the conversion of its item.
\<close>

theorem workers_take_devices_from_the_end:
  "fst (main (Inr names) fs (Inr (Some devs))) = None \<and>
   length (workers (snd (main (Inr names) fs (Inr (Some devs))))) = length devs \<and>
   map w_device (workers (snd (main (Inr names) fs (Inr (Some devs))))) = rev devs \<and>
   (\<forall>i<length devs.
      w_device (workers (snd (main (Inr names) fs (Inr (Some devs)))) ! i)
        = devs ! (length devs - 1 - i) \<and>
      w_channel (workers (snd (main (Inr names) fs (Inr (Some devs)))) ! i) = i) \<and>
   (parse_command str_int (Some s) = Inr (Some devs) \<longrightarrow>
      length devs = Suc (count_list s CHR '','') \<and>
      map Inr devs = map str_int (split_on CHR '','' s))"
proof -
  let ?ws = "map (\<lambda>i. \<lparr>w_device = devs ! (length devs - 1 - i), w_channel = i\<rparr>)
               [0..<length devs]"
  have ws: "workers (snd (main (Inr names) fs (Inr (Some devs)))) = ?ws"
    by (simp add: main_ok close_channels_def distribute_def)
  have ok: "fst (main (Inr names) fs (Inr (Some devs))) = None"
    by (simp add: main_ok)
  have "map w_device ?ws = rev devs"
    by (rule nth_equalityI) (simp_all add: rev_nth)
  then show ?thesis
    unfolding ws using ok parse_command_Some [of str_int s devs] by simp
qed

theorem workers_take_devices_from_the_end_witness:
  "parse_command (\<lambda>item. Inr item) (Some ''0,1,2'') = Inr (Some [''0'', ''1'', ''2'']) \<and>
   map w_device (workers (snd (main (Inr [''x.pdf'']) \<lparr>files = Map.empty, dirs = {}\<rparr>
      (parse_command (\<lambda>item. Inr item) (Some ''0,1,2''))))) = [''2'', ''1'', ''0'']"
proof -
  have p: "parse_command (\<lambda>item. Inr item) (Some ''0,1,2'') = Inr (Some [''0'', ''1'', ''2''])"
    by (simp add: parse_command_def)
  show ?thesis
    unfolding p
    using workers_take_devices_from_the_end
      [where names = "[''x.pdf'']" and fs = "\<lparr>files = Map.empty, dirs = {}\<rparr>"
         and devs = "[''0'', ''1'', ''2'']" and str_int = "\<lambda>item. Inr item" and s = "''0,1,2''"]
    by simp
qed

text \<open>
  Claim C2 as stated (the \<open>i\<close>-th worker is bound to the \<open>i\<close>-th device) fails: with the
  device list \<open>0,1\<close> the first worker spawned is bound to device \<open>1\<close>, since
  \<^verbatim>\<open>devices.pop()\<close> removes the last entry.
\<close>

theorem devices_in_list_order_counterexample:
  "w_device (workers (snd (main (Inr [''x.pdf'']) \<lparr>files = Map.empty, dirs = {}\<rparr>
      (Inr (Some [''0'', ''1''])))) ! 0) \<noteq> [''0'', ''1''] ! 0"
  by (simp add: main_ok close_channels_def distribute_def)

section \<open>Failure of the directory listing\<close>

text \<open>
  Claim C8. When listing the input directory fails, the main program ends with that
  failure in its initial state: no worker has been spawned, no channel exists, and so
  nothing has been put on any channel.
\<close>

theorem enumeration_failure_spawns_nothing:
  "main (Inl e) fs on = (Some e, initial) \<and>
   workers (snd (main (Inl e) fs on)) = [] \<and>
   q_list (snd (main (Inl e) fs on)) = []"
  by (simp add: main_def initial_def)

section \<open>Selection of the files to dispatch\<close>

text \<open>
  Claim C5. For the names of a directory listing (a name has no separator), the files
  selected are, in listing order, those whose name ends with \<open>.pdf\<close> and for which nothing
  exists at \<open>ocr_results/<name>.json\<close>; so a listed file is selected if and only if it has
  the extension and lacks the artifact. The selected files are the work items of the main
  program.
\<close>

theorem select_pdfs_iff:
  assumes "\<forall>n \<in> set names. sep \<notin> set n"
  shows "select_pdfs fs names =
      map (\<lambda>n. pdf_directory @ n)
        (filter (\<lambda>n. endswith n ''.pdf'' \<and>
                       \<not> path_exists fs (''ocr_results/'' @ n @ ''.json'')) names) \<and>
    (\<forall>n \<in> set names.
       (pdf_directory @ n \<in> set (select_pdfs fs names)) =
       (endswith n ''.pdf'' \<and> \<not> path_exists fs (''ocr_results/'' @ n @ ''.json''))) \<and>
    pdf_files (snd (main (Inr names) fs (Inr (Some devs)))) = select_pdfs fs names"
proof -
  have eq: "select_pdfs fs names =
      map (\<lambda>n. pdf_directory @ n)
        (filter (\<lambda>n. endswith n ''.pdf'' \<and>
                       \<not> path_exists fs (''ocr_results/'' @ n @ ''.json'')) names)"
    by (rule select_pdfs_eq [OF assms])
  have m: "pdf_files (snd (main (Inr names) fs (Inr (Some devs)))) = select_pdfs fs names"
    by (simp add: main_ok close_channels_def distribute_def)
  have iff: "(pdf_directory @ n \<in> set (select_pdfs fs names)) =
       (endswith n ''.pdf'' \<and> \<not> path_exists fs (''ocr_results/'' @ n @ ''.json''))"
    if "n \<in> set names" for n
    unfolding eq using that by auto
  show ?thesis using eq m iff by blast
qed

theorem select_pdfs_iff_witness:
  "select_pdfs \<lparr>files = [''ocr_results/a.pdf.json'' \<mapsto> ''x''], dirs = {''ocr_results''}\<rparr>
     [''a.pdf'', ''b.pdf'', ''notes.txt''] = [''/pdfs/b.pdf'']"
proof -
  have h: "\<forall>n \<in> set [''a.pdf'', ''b.pdf'', ''notes.txt'']. sep \<notin> set n"
    by (simp add: sep_def)
  show ?thesis
    using select_pdfs_iff [OF h, of
        "\<lparr>files = [''ocr_results/a.pdf.json'' \<mapsto> ''x''], dirs = {''ocr_results''}\<rparr>" "[]"]
    by (simp add: endswith_def path_exists_def pdf_directory_def)
qed

section \<open>Properties of the worker loop\<close>

lemma gets_append: "gets (xs @ ys) = gets xs @ gets ys"
  by (induction xs rule: gets.induct) auto

lemma extractions_append: "extractions (xs @ ys) = extractions xs @ extractions ys"
  by (induction xs rule: extractions.induct) auto

lemma writes_append: "writes (xs @ ys) = writes xs @ writes ys"
  by (induction xs rule: writes.induct) auto

text \<open>What one run of the loop adds to the state it starts from.\<close>

lemma worker_loop_run:
  "worker_loop load q st = (out, st') \<Longrightarrow>
   \<exists>new. trace st' = trace st @ new \<and>
         gets new @ inbox st' = q \<and>
         None \<notin> set (butlast (gets new)) \<and>
         (out = Returned) = (gets new \<noteq> [] \<and> last (gets new) = None) \<and>
         (out = Blocked \<longrightarrow> None \<notin> set q \<and> gets new = q) \<and>
         filter binding new = [] \<and>
         set (extractions new) \<subseteq> {environ st visible_devices} \<and>
         environ st' = environ st \<and>
         dirs (wfs st') = dirs (wfs st)"
proof (induction load q st arbitrary: out st' rule: worker_loop.induct)
  case (1 load st)
  then show ?case by auto
next
  case (2 load q st)
  then show ?case by (auto simp: gets_append)
next
  case (3 load file_path q st)
  let ?st1 = "st\<lparr>trace := trace st @
                  [Get (Some file_path), Extract file_path (environ st visible_devices)],
                inbox := q\<rparr>"
  let ?target = "path_join ''ocr_results'' (snd (path_split file_path) @ ''.json'')"
  show ?case
  proof (cases "load file_path")
    case (Inl e)
    with "3.prems" have "out = Raised e" "st' = ?st1" by (auto simp: Let_def)
    then show ?thesis by (auto simp: gets_append)
  next
    case (Inr documents)
    note ld = this
    show ?thesis
    proof (cases "open_w (wfs ?st1) ?target")
      case (Inl e)
      with ld "3.prems" have "out = Raised e" "st' = ?st1" by (auto simp: Let_def)
      then show ?thesis by (auto simp: gets_append)
    next
      case (Inr fs1)
      let ?s = "concat_pages documents []"
      let ?st2 = "?st1\<lparr>wfs := write_file fs1 ?target (json_dumps ?s),
                        trace := trace ?st1 @ [Write ?target (json_dumps ?s)]\<rparr>"
      from Inr have d1: "dirs fs1 = dirs (wfs st)"
        by (auto simp: open_w_def split: if_splits)
      from ld Inr "3.prems" have run: "worker_loop load q ?st2 = (out, st')"
        by (simp add: Let_def)
      from "3.IH" [OF refl ld refl Inr refl run]
      obtain new where new: "trace st' = trace ?st2 @ new"
         "gets new @ inbox st' = q"
         "None \<notin> set (butlast (gets new))"
         "(out = Returned) = (gets new \<noteq> [] \<and> last (gets new) = None)"
         "(out = Blocked \<longrightarrow> None \<notin> set q \<and> gets new = q)"
         "filter binding new = []"
         "set (extractions new) \<subseteq> {environ ?st2 visible_devices}"
         "environ st' = environ ?st2"
         "dirs (wfs st') = dirs (wfs ?st2)"
        by blast
      let ?new = "[Get (Some file_path), Extract file_path (environ st visible_devices),
                   Write ?target (json_dumps ?s)] @ new"
      have "trace st' = trace st @ ?new" using new(1) by simp
      moreover have "gets ?new @ inbox st' = Some file_path # q" using new(2) by simp
      moreover have "None \<notin> set (butlast (gets ?new))" using new(3) by (auto simp: butlast_append)
      moreover have "(out = Returned) = (gets ?new \<noteq> [] \<and> last (gets ?new) = None)"
        using new(4) by auto
      moreover have "(out = Blocked \<longrightarrow> None \<notin> set (Some file_path # q) \<and> gets ?new = Some file_path # q)"
        using new(5) by auto
      moreover have "filter binding ?new = []" using new(6) by simp
      moreover have "set (extractions ?new) \<subseteq> {environ st visible_devices}" using new(7) by auto
      moreover have "environ st' = environ st" using new(8) by simp
      moreover have "dirs (wfs st') = dirs (wfs st)" using new(9) d1 by (simp add: write_file_def)
      ultimately show ?thesis by blast
    qed
  qed
qed


lemma worker_loop_files:
  "worker_loop load q st = (out, st') \<Longrightarrow>
   t \<notin> artifact_path ` {p. Some p \<in> set q} \<Longrightarrow>
   files (wfs st') t = files (wfs st) t"
proof (induction load q st arbitrary: out st' rule: worker_loop.induct)
  case (1 load st)
  then show ?case by auto
next
  case (2 load q st)
  then show ?case by auto
next
  case (3 load file_path q st)
  let ?st1 = "st\<lparr>trace := trace st @
                  [Get (Some file_path), Extract file_path (environ st visible_devices)],
                inbox := q\<rparr>"
  let ?target = "path_join ''ocr_results'' (snd (path_split file_path) @ ''.json'')"
  from "3.prems"(2) have ne: "t \<noteq> ?target" and rest: "t \<notin> artifact_path ` {p. Some p \<in> set q}"
    by (auto simp: artifact_path_def)
  show ?case
  proof (cases "load file_path")
    case (Inl e)
    with "3.prems" have "st' = ?st1" by (auto simp: Let_def)
    then show ?thesis by simp
  next
    case (Inr documents)
    note ld = this
    show ?thesis
    proof (cases "open_w (wfs ?st1) ?target")
      case (Inl e)
      with ld "3.prems" have "st' = ?st1" by (auto simp: Let_def)
      then show ?thesis by simp
    next
      case (Inr fs1)
      let ?s = "concat_pages documents []"
      let ?st2 = "?st1\<lparr>wfs := write_file fs1 ?target (json_dumps ?s),
                        trace := trace ?st1 @ [Write ?target (json_dumps ?s)]\<rparr>"
      from Inr have f1: "files fs1 t = files (wfs st) t" using ne
        by (auto simp: open_w_def split: if_splits)
      from ld Inr "3.prems" have run: "worker_loop load q ?st2 = (out, st')"
        by (simp add: Let_def)
      from "3.IH" [OF refl ld refl Inr refl run rest]
      have "files (wfs st') t = files (wfs ?st2) t" .
      then show ?thesis using f1 ne by (simp add: write_file_def)
    qed
  qed
qed

lemma concat_pages_eq:
  "concat_pages documents s = s @ concat (map (\<lambda>d. page_content d @ blank_line) documents)"
  by (induction documents arbitrary: s) auto

lemma sep_notin_after_last_sep: "sep \<notin> set (after_last_sep p)"
proof -
  have "set (takeWhile (\<lambda>c. c \<noteq> sep) (rev p)) \<subseteq> {c. c \<noteq> sep}"
    by (auto dest: set_takeWhileD)
  then show ?thesis by (auto simp: after_last_sep_def)
qed

lemma artifact_path_eq: "artifact_path f = ''ocr_results/'' @ basename f @ ''.json''"
proof -
  have t: "sep \<notin> set (after_last_sep f)" by (rule sep_notin_after_last_sep)
  have "path_join ''ocr_results'' (after_last_sep f @ ''.json'') =
        ''ocr_results/'' @ after_last_sep f @ ''.json''"
    using t
    by (cases "after_last_sep f") (auto simp: path_join_def startswith_def endswith_def sep_def)
  then show ?thesis by (simp add: artifact_path_def path_split_def Let_def basename_def)
qed

lemma process_pdf_run:
  "process_pdf mk env fs device q = (out, st) \<Longrightarrow>
   \<exists>new. trace st = [SetEnv visible_devices device,
                     Construct initial_path device (Some device)] @ new \<and>
         gets new @ inbox st = q \<and>
         None \<notin> set (butlast (gets new)) \<and>
         (out = Returned) = (gets new \<noteq> [] \<and> last (gets new) = None) \<and>
         (out = Blocked \<longrightarrow> None \<notin> set q) \<and>
         filter binding new = [] \<and>
         set (extractions new) \<subseteq> {Some device} \<and>
         environ st = env(visible_devices \<mapsto> device)"
proof (cases "mk initial_path device")
  case (Inl e)
  assume "process_pdf mk env fs device q = (out, st)"
  with Inl have "out = Raised e"
    "st = \<lparr>environ = env(visible_devices \<mapsto> device), wfs = fs,
          trace = [SetEnv visible_devices device,
                   Construct initial_path device (Some device)], inbox = q\<rparr>"
    by (auto simp: process_pdf_def Let_def)
  then show ?thesis by simp
next
  case (Inr load)
  let ?st1 = "\<lparr>environ = env(visible_devices \<mapsto> device), wfs = fs,
          trace = [SetEnv visible_devices device,
                   Construct initial_path device (Some device)], inbox = q\<rparr>"
  assume "process_pdf mk env fs device q = (out, st)"
  with Inr have "worker_loop load q ?st1 = (out, st)"
    by (simp add: process_pdf_def Let_def)
  from worker_loop_run [OF this] show ?thesis by auto
qed

section \<open>The shutdown sentinel\<close>

text \<open>
  Claim C3. The main program leaves on the channel of every worker the work items
  assigned to it followed by one sentinel, so exactly one sentinel is enqueued per channel
  and it comes after all work items of that channel. A worker takes the values of its
  channel in order; whatever is on the channel, no value it took before its last one is
  the sentinel, it returns exactly when the last value it took is the sentinel, and what
  it has not taken stays on the channel, so it takes nothing after the sentinel even if
  items remain. With a sentinel on the channel the worker never waits for ever.
\<close>

theorem sentinel_enqueued_last_and_consumed_last:
  "(\<forall>j<length devs.
      q_list (snd (main (Inr names) fs (Inr (Some devs)))) ! j =
        map Some (map ((!) (select_pdfs fs names))
          (filter (\<lambda>i. i mod length devs = j) [0..<length (select_pdfs fs names)])) @ [None]) \<and>
   gets (trace (snd (process_pdf mk env wfs0 device q))) @
     inbox (snd (process_pdf mk env wfs0 device q)) = q \<and>
   None \<notin> set (butlast (gets (trace (snd (process_pdf mk env wfs0 device q))))) \<and>
   (fst (process_pdf mk env wfs0 device q) = Returned) =
     (gets (trace (snd (process_pdf mk env wfs0 device q))) \<noteq> [] \<and>
      last (gets (trace (snd (process_pdf mk env wfs0 device q)))) = None) \<and>
   (None \<in> set q \<longrightarrow> fst (process_pdf mk env wfs0 device q) \<noteq> Blocked)"
proof -
  let ?L = "select_pdfs fs names"
  let ?N = "length devs"
  have chan: "q_list (snd (main (Inr names) fs (Inr (Some devs)))) ! j =
        map Some (map ((!) ?L) (filter (\<lambda>i. i mod ?N = j) [0..<length ?L])) @ [None]"
    if "j < ?N" for j
  proof -
    have "q_list (snd (main (Inr names) fs (Inr (Some devs)))) =
          map (\<lambda>q. q @ [None]) (put_round_robin ?L 0 (replicate ?N []))"
      by (simp add: main_ok close_channels_def distribute_def)
    moreover have "put_round_robin ?L 0 (replicate ?N []) ! j =
          map Some (map ((!) ?L) (filter (\<lambda>i. i mod ?N = j) [0..<length ?L]))"
    proof -
      have "0 < length (replicate ?N ([]::channel))" and "j < length (replicate ?N ([]::channel))"
        using that by auto
      from put_round_robin_nth [OF this, of ?L] show ?thesis using that by simp
    qed
    ultimately show ?thesis using that by (simp add: length_put_round_robin)
  qed
  obtain out st where r: "process_pdf mk env wfs0 device q = (out, st)"
    by (cases "process_pdf mk env wfs0 device q")
  from process_pdf_run [OF r] obtain new where
    "trace st = [SetEnv visible_devices device,
                 Construct initial_path device (Some device)] @ new"
    "gets new @ inbox st = q"
    "None \<notin> set (butlast (gets new))"
    "(out = Returned) = (gets new \<noteq> [] \<and> last (gets new) = None)"
    "out = Blocked \<longrightarrow> None \<notin> set q"
    by blast
  then have w: "gets (trace st) @ inbox st = q"
    "None \<notin> set (butlast (gets (trace st)))"
    "(out = Returned) = (gets (trace st) \<noteq> [] \<and> last (gets (trace st)) = None)"
    "None \<in> set q \<longrightarrow> out \<noteq> Blocked"
    by auto
  show ?thesis using chan w unfolding r by simp
qed

theorem sentinel_enqueued_last_and_consumed_last_witness:
  "q_list (snd (main (Inr [''x.pdf'', ''y.pdf'', ''z.pdf'']) \<lparr>files = Map.empty, dirs = {}\<rparr>
       (Inr (Some [''0'', ''1''])))) ! 1 = [Some ''/pdfs/y.pdf'', None] \<and>
   fst (process_pdf (\<lambda>p d. Inr (\<lambda>f. Inr [])) Map.empty
         \<lparr>files = Map.empty, dirs = {''ocr_results''}\<rparr> ''1''
         [Some ''/pdfs/y.pdf'', None, Some ''/pdfs/late.pdf'']) = Returned \<and>
   inbox (snd (process_pdf (\<lambda>p d. Inr (\<lambda>f. Inr [])) Map.empty
         \<lparr>files = Map.empty, dirs = {''ocr_results''}\<rparr> ''1''
         [Some ''/pdfs/y.pdf'', None, Some ''/pdfs/late.pdf''])) = [Some ''/pdfs/late.pdf'']"
proof -
  let ?fs = "\<lparr>files = Map.empty, dirs = {}\<rparr>"
  let ?r = "process_pdf (\<lambda>p d. Inr (\<lambda>f. Inr [])) Map.empty
         \<lparr>files = Map.empty, dirs = {''ocr_results''}\<rparr> ''1''
         [Some ''/pdfs/y.pdf'', None, Some ''/pdfs/late.pdf'']"
  note T = sentinel_enqueued_last_and_consumed_last
    [of "[''0'', ''1'']" "[''x.pdf'', ''y.pdf'', ''z.pdf'']" ?fs
        "\<lambda>p d. Inr (\<lambda>f. Inr [])" Map.empty "\<lparr>files = Map.empty, dirs = {''ocr_results''}\<rparr>"
        "''1''" "[Some ''/pdfs/y.pdf'', None, Some ''/pdfs/late.pdf'']"]
  have sel: "select_pdfs ?fs [''x.pdf'', ''y.pdf'', ''z.pdf''] =
      [''/pdfs/x.pdf'', ''/pdfs/y.pdf'', ''/pdfs/z.pdf'']"
    by (simp add: select_pdfs_def endswith_def path_join_def startswith_def pdf_directory_def
          sep_def path_exists_def)
  have a: "q_list (snd (main (Inr [''x.pdf'', ''y.pdf'', ''z.pdf'']) ?fs
       (Inr (Some [''0'', ''1''])))) ! 1 = [Some ''/pdfs/y.pdf'', None]"
    using T [THEN conjunct1, THEN spec, of 1] unfolding sel by (simp add: upt_rec)
  have g: "gets (trace (snd ?r)) = [Some ''/pdfs/y.pdf'', None]"
    by (simp add: process_pdf_def Let_def open_w_def path_split_def path_join_def
          upto_last_sep_def after_last_sep_def rstrip_sep_def startswith_def endswith_def
          sep_def write_file_def)
  from T have "(fst ?r = Returned) =
     (gets (trace (snd ?r)) \<noteq> [] \<and> last (gets (trace (snd ?r))) = None)"
    and "gets (trace (snd ?r)) @ inbox (snd ?r) =
         [Some ''/pdfs/y.pdf'', None, Some ''/pdfs/late.pdf'']"
    by blast+
  then have "fst ?r = Returned" and "inbox (snd ?r) = [Some ''/pdfs/late.pdf'']"
    unfolding g by simp_all
  with a show ?thesis by simp
qed

section \<open>Device binding\<close>

text \<open>
  Claim C7. The first thing a worker does is set \<^verbatim>\<open>CUDA_VISIBLE_DEVICES\<close> to its
  device; the second is the construction of its extraction strategy, which therefore sees
  exactly that device; afterwards the worker neither sets the variable nor constructs a
  strategy again, every extraction runs with the variable equal to the worker's device,
  and the worker's environment stays the one it was started with except for that variable.
\<close>

theorem device_bound_before_construction:
  "take 2 (trace (snd (process_pdf mk env fs device q))) =
     [SetEnv visible_devices device, Construct initial_path device (Some device)] \<and>
   filter binding (drop 2 (trace (snd (process_pdf mk env fs device q)))) = [] \<and>
   (\<forall>v \<in> set (extractions (trace (snd (process_pdf mk env fs device q)))). v = Some device) \<and>
   environ (snd (process_pdf mk env fs device q)) = env(visible_devices \<mapsto> device)"
proof -
  obtain out st where r: "process_pdf mk env fs device q = (out, st)"
    by (cases "process_pdf mk env fs device q")
  from process_pdf_run [OF r] obtain new where
    t: "trace st = [SetEnv visible_devices device,
                 Construct initial_path device (Some device)] @ new"
    and b: "filter binding new = []"
    and x: "set (extractions new) \<subseteq> {Some device}"
    and e: "environ st = env(visible_devices \<mapsto> device)"
    by blast
  have "extractions (trace st) = extractions new" unfolding t by simp
  with x have "\<forall>v \<in> set (extractions (trace st)). v = Some device" by auto
  then show ?thesis unfolding r using t b e by simp
qed

theorem device_bound_before_construction_witness:
  "trace (snd (process_pdf (\<lambda>p d. Inr (\<lambda>f. Inr [])) [visible_devices \<mapsto> ''0,1,2'']
       \<lparr>files = Map.empty, dirs = {''ocr_results''}\<rparr> ''1'' [Some ''/pdfs/y.pdf'', None])) ! 0
     = SetEnv ''CUDA_VISIBLE_DEVICES'' ''1'' \<and>
   extractions (trace (snd (process_pdf (\<lambda>p d. Inr (\<lambda>f. Inr [])) [visible_devices \<mapsto> ''0,1,2'']
       \<lparr>files = Map.empty, dirs = {''ocr_results''}\<rparr> ''1'' [Some ''/pdfs/y.pdf'', None])))
     = [Some ''1'']"
proof -
  let ?r = "process_pdf (\<lambda>p d. Inr (\<lambda>f. Inr [])) [visible_devices \<mapsto> ''0,1,2'']
       \<lparr>files = Map.empty, dirs = {''ocr_results''}\<rparr> ''1'' [Some ''/pdfs/y.pdf'', None]"
  note T = device_bound_before_construction
    [of "\<lambda>p d. Inr (\<lambda>f. Inr [])" "[visible_devices \<mapsto> ''0,1,2'']"
        "\<lparr>files = Map.empty, dirs = {''ocr_results''}\<rparr>" "''1''" "[Some ''/pdfs/y.pdf'', None]"]
  from T have tk: "take 2 (trace (snd ?r)) =
     [SetEnv visible_devices ''1'', Construct initial_path ''1'' (Some ''1'')]"
    and all: "\<forall>v \<in> set (extractions (trace (snd ?r))). v = Some ''1''"
    by blast+
  have "trace (snd ?r) ! 0 = take 2 (trace (snd ?r)) ! 0" by simp
  then have a: "trace (snd ?r) ! 0 = SetEnv ''CUDA_VISIBLE_DEVICES'' ''1''"
    unfolding tk by (simp add: visible_devices_def)
  have len: "length (extractions (trace (snd ?r))) = 1"
    by (simp add: process_pdf_def Let_def open_w_def path_split_def path_join_def
          upto_last_sep_def after_last_sep_def rstrip_sep_def startswith_def endswith_def
          sep_def write_file_def)
  have b: "extractions (trace (snd ?r)) = [Some ''1'']"
    using len all by (cases "extractions (trace (snd ?r))") auto
  from a b show ?thesis by simp
qed

lemma upto_last_sep_append:
  assumes "sep \<notin> set n"
  shows "upto_last_sep (a @ [sep] @ n) = a @ [sep]"
proof -
  have "dropWhile (\<lambda>c. c \<noteq> sep) (rev n @ sep # rev a) = dropWhile (\<lambda>c. c \<noteq> sep) (sep # rev a)"
    by (rule dropWhile_append2) (use assms in auto)
  then show ?thesis by (simp add: upto_last_sep_def)
qed

lemma dirname_artifact_path: "fst (path_split (artifact_path p)) = ''ocr_results''"
proof -
  let ?n = "basename p @ ''.json''"
  have n: "sep \<notin> set ?n"
    using sep_notin_after_last_sep [of p] by (simp add: basename_def sep_def)
  have eq: "artifact_path p = ''ocr_results'' @ [sep] @ ?n"
    by (simp add: artifact_path_eq sep_def)
  have "upto_last_sep (artifact_path p) = ''ocr_results'' @ [sep]"
    unfolding eq by (rule upto_last_sep_append [OF n])
  then show ?thesis
    by (simp add: path_split_def Let_def rstrip_sep_def sep_def)
qed

lemma open_w_artifact:
  "''ocr_results'' \<in> dirs fs \<Longrightarrow> artifact_path p \<notin> dirs fs \<Longrightarrow>
   open_w fs (artifact_path p) = Inr (fs\<lparr>files := (files fs)(artifact_path p \<mapsto> [])\<rparr>)"
  by (simp add: open_w_def dirname_artifact_path)

lemma worker_loop_step:
  assumes "load p = Inr documents"
    and "''ocr_results'' \<in> dirs (wfs st)" and "artifact_path p \<notin> dirs (wfs st)"
  shows "worker_loop load (Some p # q) st =
    worker_loop load q
      (st\<lparr>trace := trace st @
             [Get (Some p), Extract p (environ st visible_devices),
              Write (artifact_path p)
                (json_dumps (concat (map (\<lambda>d. page_content d @ blank_line) documents)))],
           inbox := q,
           wfs := (wfs st)\<lparr>files := (files (wfs st))(artifact_path p \<mapsto>
                json_dumps (concat (map (\<lambda>d. page_content d @ blank_line) documents)))\<rparr>\<rparr>)"
proof -
  let ?c = "json_dumps (concat (map (\<lambda>d. page_content d @ blank_line) documents))"
  let ?st1 = "st\<lparr>trace := trace st @ [Get (Some p), Extract p (environ st visible_devices)],
                inbox := q\<rparr>"
  let ?fs1 = "(wfs st)\<lparr>files := (files (wfs st))(artifact_path p \<mapsto> [])\<rparr>"
  have o: "open_w (wfs ?st1) (path_join ''ocr_results'' (snd (path_split p) @ ''.json'')) =
      Inr ?fs1"
    using open_w_artifact [OF assms(2,3)] by (simp add: artifact_path_def)
  have run: "worker_loop load (Some p # q) st =
      worker_loop load q
        (?st1\<lparr>wfs := write_file ?fs1 (artifact_path p) ?c,
               trace := trace ?st1 @ [Write (artifact_path p) ?c]\<rparr>)"
    unfolding worker_loop.simps Let_def assms(1) o
    by (simp add: concat_pages_eq artifact_path_def)
  have st: "?st1\<lparr>wfs := write_file ?fs1 (artifact_path p) ?c,
               trace := trace ?st1 @ [Write (artifact_path p) ?c]\<rparr> =
      st\<lparr>trace := trace st @
             [Get (Some p), Extract p (environ st visible_devices), Write (artifact_path p) ?c],
           inbox := q,
           wfs := (wfs st)\<lparr>files := (files (wfs st))(artifact_path p \<mapsto> ?c)\<rparr>\<rparr>"
    by (simp add: write_file_def)
  show ?thesis unfolding run st ..
qed

lemma worker_loop_prefix:
  assumes "\<forall>p \<in> set pre. \<exists>documents. load p = Inr documents"
    and "''ocr_results'' \<in> dirs (wfs st)"
    and "\<forall>p \<in> set pre. artifact_path p \<notin> dirs (wfs st)"
  shows "\<exists>st1. worker_loop load (map Some pre @ q) st = worker_loop load q st1 \<and>
      environ st1 = environ st \<and> dirs (wfs st1) = dirs (wfs st) \<and>
      gets (trace st1) = gets (trace st) @ map Some pre \<and>
      writes (trace st1) = writes (trace st) @
        map (\<lambda>p. (artifact_path p,
              json_dumps (concat (map (\<lambda>d. page_content d @ blank_line) (projr (load p)))))) pre \<and>
      (\<forall>t. t \<notin> artifact_path ` set pre \<longrightarrow> files (wfs st1) t = files (wfs st) t)"
  using assms
proof (induction pre arbitrary: st)
  case Nil
  then show ?case by auto
next
  case (Cons p pre)
  from Cons.prems(1) obtain documents where ld: "load p = Inr documents" by auto
  let ?c = "json_dumps (concat (map (\<lambda>d. page_content d @ blank_line) documents))"
  let ?st' = "st\<lparr>trace := trace st @
             [Get (Some p), Extract p (environ st visible_devices), Write (artifact_path p) ?c],
           inbox := map Some pre @ q,
           wfs := (wfs st)\<lparr>files := (files (wfs st))(artifact_path p \<mapsto> ?c)\<rparr>\<rparr>"
  have step: "worker_loop load (map Some (p # pre) @ q) st = worker_loop load (map Some pre @ q) ?st'"
    using worker_loop_step [where load = load and p = p and documents = documents
        and st = st and q = "map Some pre @ q"] ld Cons.prems by simp
  have a: "\<forall>p \<in> set pre. \<exists>documents. load p = Inr documents" using Cons.prems(1) by simp
  have b: "''ocr_results'' \<in> dirs (wfs ?st')" using Cons.prems(2) by simp
  have c: "\<forall>p \<in> set pre. artifact_path p \<notin> dirs (wfs ?st')" using Cons.prems(3) by simp
  from Cons.IH [OF a b c] obtain st1 where
    st1: "worker_loop load (map Some pre @ q) ?st' = worker_loop load q st1"
      "environ st1 = environ ?st'" "dirs (wfs st1) = dirs (wfs ?st')"
      "gets (trace st1) = gets (trace ?st') @ map Some pre"
      "writes (trace st1) = writes (trace ?st') @
        map (\<lambda>p. (artifact_path p,
              json_dumps (concat (map (\<lambda>d. page_content d @ blank_line) (projr (load p)))))) pre"
      "\<forall>t. t \<notin> artifact_path ` set pre \<longrightarrow> files (wfs st1) t = files (wfs ?st') t"
    by blast
  have "worker_loop load (map Some (p # pre) @ q) st = worker_loop load q st1"
    using step st1(1) by simp
  moreover have "environ st1 = environ st" using st1(2) by simp
  moreover have "dirs (wfs st1) = dirs (wfs st)" using st1(3) by simp
  moreover have "gets (trace st1) = gets (trace st) @ map Some (p # pre)"
    using st1(4) by (simp add: gets_append)
  moreover have "writes (trace st1) = writes (trace st) @
        map (\<lambda>p. (artifact_path p,
              json_dumps (concat (map (\<lambda>d. page_content d @ blank_line) (projr (load p))))))
          (p # pre)"
    using st1(5) ld by (simp add: writes_append)
  moreover have "\<forall>t. t \<notin> artifact_path ` set (p # pre) \<longrightarrow> files (wfs st1) t = files (wfs st) t"
    using st1(6) by auto
  ultimately show ?case by blast
qed

section \<open>Failure of an extraction\<close>

text \<open>
  Claim C6. When the extraction strategy raises on a work item, the loop does not catch
  it: whatever state the worker is in when it takes the item, the worker ends with that
  exception, having recorded only the take and the extraction call; the file system is as
  it was before the item, so no artifact (partial or complete) is written for it; and the
  values behind the item stay on the channel. For the whole process, on a channel whose
  items before the failing one all extract: the worker ends with the exception, it took
  each item up to the failing one once and none behind it, it wrote the artifacts of the
  items before the failing one and no other, and the path of the failing item's artifact
  holds what it held at the start unless an earlier item shares it. A worker has no
  operation that puts a value on a channel, so nothing is handed to another worker.
\<close>

theorem extraction_failure_ends_worker:
  assumes "load file_path = Inl e"
    and "mk initial_path device = Inr load"
    and "\<forall>p \<in> set pre. \<exists>documents. load p = Inr documents"
    and "''ocr_results'' \<in> dirs fs"
    and "\<forall>p \<in> set pre. artifact_path p \<notin> dirs fs"
  shows "fst (worker_loop load (Some file_path # rest) st) = Raised e \<and>
    wfs (snd (worker_loop load (Some file_path # rest) st)) = wfs st \<and>
    inbox (snd (worker_loop load (Some file_path # rest) st)) = rest \<and>
    trace (snd (worker_loop load (Some file_path # rest) st)) =
      trace st @ [Get (Some file_path), Extract file_path (environ st visible_devices)] \<and>
    fst (process_pdf mk env fs device (map Some pre @ Some file_path # rest)) = Raised e \<and>
    inbox (snd (process_pdf mk env fs device (map Some pre @ Some file_path # rest))) = rest \<and>
    gets (trace (snd (process_pdf mk env fs device (map Some pre @ Some file_path # rest)))) =
      map Some pre @ [Some file_path] \<and>
    writes (trace (snd (process_pdf mk env fs device (map Some pre @ Some file_path # rest)))) =
      map (\<lambda>p. (artifact_path p,
            json_dumps (concat (map (\<lambda>d. page_content d @ blank_line) (projr (load p)))))) pre \<and>
    (artifact_path file_path \<notin> artifact_path ` set pre \<longrightarrow>
      files (wfs (snd (process_pdf mk env fs device (map Some pre @ Some file_path # rest))))
        (artifact_path file_path) = files fs (artifact_path file_path))"
proof -
  have step: "worker_loop load (Some file_path # rest) s =
      (Raised e, s\<lparr>trace := trace s @
          [Get (Some file_path), Extract file_path (environ s visible_devices)],
        inbox := rest\<rparr>)" for s
    using assms(1) by simp
  let ?st0 = "\<lparr>environ = env(visible_devices \<mapsto> device), wfs = fs,
          trace = [SetEnv visible_devices device,
                   Construct initial_path device (Some device)],
          inbox = map Some pre @ Some file_path # rest\<rparr>"
  have p: "process_pdf mk env fs device (map Some pre @ Some file_path # rest) =
      worker_loop load (map Some pre @ Some file_path # rest) ?st0"
    using assms(2) by (simp add: process_pdf_def Let_def)
  have b: "''ocr_results'' \<in> dirs (wfs ?st0)" using assms(4) by simp
  have c: "\<forall>p \<in> set pre. artifact_path p \<notin> dirs (wfs ?st0)" using assms(5) by simp
  from worker_loop_prefix [OF assms(3) b c, of "Some file_path # rest"]
  obtain st1 where st1:
      "worker_loop load (map Some pre @ Some file_path # rest) ?st0 =
       worker_loop load (Some file_path # rest) st1"
      "gets (trace st1) = gets (trace ?st0) @ map Some pre"
      "writes (trace st1) = writes (trace ?st0) @
        map (\<lambda>p. (artifact_path p,
              json_dumps (concat (map (\<lambda>d. page_content d @ blank_line) (projr (load p)))))) pre"
      "\<forall>t. t \<notin> artifact_path ` set pre \<longrightarrow> files (wfs st1) t = files (wfs ?st0) t"
    by blast
  have r: "process_pdf mk env fs device (map Some pre @ Some file_path # rest) =
      (Raised e, st1\<lparr>trace := trace st1 @
          [Get (Some file_path), Extract file_path (environ st1 visible_devices)],
        inbox := rest\<rparr>)"
    unfolding p st1(1) by (rule step)
  show ?thesis
    unfolding r using step [of st] st1(2,3,4)
    by (simp add: gets_append writes_append)
qed

theorem extraction_failure_ends_worker_witness:
  "fst (process_pdf (\<lambda>p d. Inr (\<lambda>f. if f = ''/pdfs/bad.pdf'' then Inl ExtractionError else Inr []))
        Map.empty \<lparr>files = Map.empty, dirs = {''ocr_results''}\<rparr> ''0''
        [Some ''/pdfs/ok.pdf'', Some ''/pdfs/bad.pdf'', Some ''/pdfs/next.pdf'', None])
     = Raised ExtractionError \<and>
   inbox (snd (process_pdf (\<lambda>p d. Inr (\<lambda>f. if f = ''/pdfs/bad.pdf'' then Inl ExtractionError else Inr []))
        Map.empty \<lparr>files = Map.empty, dirs = {''ocr_results''}\<rparr> ''0''
        [Some ''/pdfs/ok.pdf'', Some ''/pdfs/bad.pdf'', Some ''/pdfs/next.pdf'', None]))
     = [Some ''/pdfs/next.pdf'', None] \<and>
   files (wfs (snd (process_pdf (\<lambda>p d. Inr (\<lambda>f. if f = ''/pdfs/bad.pdf'' then Inl ExtractionError else Inr []))
        Map.empty \<lparr>files = Map.empty, dirs = {''ocr_results''}\<rparr> ''0''
        [Some ''/pdfs/ok.pdf'', Some ''/pdfs/bad.pdf'', Some ''/pdfs/next.pdf'', None])))
      ''ocr_results/bad.pdf.json'' = None"
proof -
  let ?load = "\<lambda>f. if f = ''/pdfs/bad.pdf'' then Inl ExtractionError else Inr ([]::document list)"
  let ?mk = "\<lambda>(p::string) (d::string). (Inr ?load :: error + loader)"
  let ?fs = "\<lparr>files = Map.empty, dirs = {''ocr_results''}\<rparr>"
  have h1: "?load ''/pdfs/bad.pdf'' = Inl ExtractionError" by simp
  have h2: "?mk initial_path ''0'' = Inr ?load" by simp
  have h3: "\<forall>p \<in> set [''/pdfs/ok.pdf'']. \<exists>documents. ?load p = Inr documents" by simp
  have h4: "''ocr_results'' \<in> dirs ?fs" by simp
  have ap: "artifact_path ''/pdfs/ok.pdf'' = ''ocr_results/ok.pdf.json''"
      "artifact_path ''/pdfs/bad.pdf'' = ''ocr_results/bad.pdf.json''"
    by (simp_all add: artifact_path_eq basename_def after_last_sep_def sep_def)
  have h5: "\<forall>p \<in> set [''/pdfs/ok.pdf'']. artifact_path p \<notin> dirs ?fs" by (simp add: ap)
  note T = extraction_failure_ends_worker
    [where load = ?load and file_path = "''/pdfs/bad.pdf''" and e = ExtractionError
       and mk = ?mk and device = "''0''" and pre = "[''/pdfs/ok.pdf'']" and fs = ?fs
       and env = Map.empty and rest = "[Some ''/pdfs/next.pdf'', None]", OF h1 h2 h3 h4 h5]
  show ?thesis using T by (simp add: ap)
qed

section \<open>Reading back the JSON text\<close>

lemma hexval_hexdigits: "k < 16 \<Longrightarrow> hexval (hexdigits ! k) = Some k"
proof -
  assume "k < 16"
  then have "k = 0 \<or> k = 1 \<or> k = 2 \<or> k = 3 \<or> k = 4 \<or> k = 5 \<or> k = 6 \<or> k = 7 \<or>
      k = 8 \<or> k = 9 \<or> k = 10 \<or> k = 11 \<or> k = 12 \<or> k = 13 \<or> k = 14 \<or> k = 15"
    by arith
  then show ?thesis
    by (elim disjE) (simp_all add: hexval_def hexdigits_def)
qed

lemma of_char_less_256: "(of_char c :: nat) < 256"
proof -
  have "(of_char c :: nat) mod 256 = of_char c" by simp
  moreover have "(of_char c :: nat) mod 256 < 256" by simp
  ultimately show ?thesis by simp
qed

lemma json_unescape_escape:
  "json_unescape (json_escape c @ rest) = map_option ((#) c) (json_unescape rest)"
proof -
  let ?n = "of_char c :: nat"
  consider (q) "c = CHR 0x22" | (b) "c = CHR 0x5C" | (n) "c = CHR 0x0A" | (r) "c = CHR 0x0D"
    | (t) "c = CHR 0x09" | (bs) "c = CHR 0x08" | (f) "c = CHR 0x0C"
    | (plain) "c \<noteq> CHR 0x22" "c \<noteq> CHR 0x5C" "32 \<le> ?n" "?n \<le> 126"
    | (u) "c \<noteq> CHR 0x22" "c \<noteq> CHR 0x5C" "c \<noteq> CHR 0x0A" "c \<noteq> CHR 0x0D" "c \<noteq> CHR 0x09"
          "c \<noteq> CHR 0x08" "c \<noteq> CHR 0x0C" "\<not> (32 \<le> ?n \<and> ?n \<le> 126)"
    by blast
  then show ?thesis
  proof cases
    case q then show ?thesis by (simp add: json_escape_def short_escape_def)
  next
    case b then show ?thesis by (simp add: json_escape_def short_escape_def)
  next
    case n then show ?thesis by (simp add: json_escape_def short_escape_def)
  next
    case r then show ?thesis by (simp add: json_escape_def short_escape_def)
  next
    case t then show ?thesis by (simp add: json_escape_def short_escape_def)
  next
    case bs then show ?thesis by (simp add: json_escape_def short_escape_def)
  next
    case f then show ?thesis by (simp add: json_escape_def short_escape_def)
  next
    case plain
    then have "json_escape c = [c]"
      by (auto simp: json_escape_def)
    then show ?thesis using plain by simp
  next
    case u
    have lt: "?n < 256" by (rule of_char_less_256)
    then have d: "?n div 16 < 16" and m: "?n mod 16 < 16" by (presburger+)
    have esc: "json_escape c = [CHR 0x5C, CHR ''u'', CHR ''0'', CHR ''0'',
            hexdigits ! (?n div 16), hexdigits ! (?n mod 16)]"
      using u by (simp add: json_escape_def)
    have z: "hexval (CHR ''0'') = Some 0" by (simp add: hexval_def)
    have recomb: "char_of (16 * (?n div 16) + ?n mod 16) = c" by simp
    show ?thesis
      unfolding esc
      by (simp add: z hexval_hexdigits [OF d] hexval_hexdigits [OF m] recomb del: mult_div_mod_eq)
  qed
qed

lemma json_unescape_escaped: "json_unescape (concat (map json_escape s)) = Some s"
  by (induction s) (simp_all add: json_unescape_escape)

lemma json_round_trip: "json_loads (json_dumps s) = Some s"
  by (simp add: json_loads_def json_dumps_def json_unescape_escaped)

section \<open>The result artifact\<close>

text \<open>
  Claim C4. When the extraction of a work item returns the documents \<open>d1, ..., dk\<close> and
  the artifact can be opened (the results directory exists and the artifact's path is not
  a directory), the worker writes exactly one file in that turn of the loop: the file
  \<open>ocr_results/<name>.json\<close>, where \<open><name>\<close> is the last component of the item's path,
  with content the JSON text of the one string
  \<open>page_content d1 + "\n\n" + ... + page_content dk + "\n\n"\<close>. The file still holds that
  text when this worker ends, unless a later item of its channel has the same file name;
  and read back as JSON the text gives that string. For the pages \<open>Hello\<close> and \<open>World\<close>
  the decoded artifact is \<open>Hello\n\nWorld\n\n\<close>.
\<close>

theorem artifact_holds_json_of_joined_pages:
  assumes "load file_path = Inr documents"
    and "''ocr_results'' \<in> dirs (wfs st)"
    and "artifact_path file_path \<notin> dirs (wfs st)"
  shows "artifact_path file_path = ''ocr_results/'' @ basename file_path @ ''.json'' \<and>
    worker_loop load (Some file_path # q) st =
      worker_loop load q
        (st\<lparr>trace := trace st @
               [Get (Some file_path), Extract file_path (environ st visible_devices),
                Write (artifact_path file_path)
                  (json_dumps (concat (map (\<lambda>d. page_content d @ blank_line) documents)))],
             inbox := q,
             wfs := (wfs st)\<lparr>files := (files (wfs st))(artifact_path file_path \<mapsto>
                  json_dumps (concat (map (\<lambda>d. page_content d @ blank_line) documents)))\<rparr>\<rparr>) \<and>
    (artifact_path file_path \<notin> artifact_path ` {p. Some p \<in> set q} \<longrightarrow>
       files (wfs (snd (worker_loop load (Some file_path # q) st))) (artifact_path file_path) =
         Some (json_dumps (concat (map (\<lambda>d. page_content d @ blank_line) documents)))) \<and>
    json_loads (json_dumps (concat (map (\<lambda>d. page_content d @ blank_line) documents))) =
      Some (concat (map (\<lambda>d. page_content d @ blank_line) documents))"
proof -
  let ?c = "json_dumps (concat (map (\<lambda>d. page_content d @ blank_line) documents))"
  let ?st2 = "st\<lparr>trace := trace st @
               [Get (Some file_path), Extract file_path (environ st visible_devices),
                Write (artifact_path file_path) ?c],
             inbox := q,
             wfs := (wfs st)\<lparr>files := (files (wfs st))(artifact_path file_path \<mapsto> ?c)\<rparr>\<rparr>"
  have step: "worker_loop load (Some file_path # q) st = worker_loop load q ?st2"
    using assms
    by (rule worker_loop_step [where load = load and p = file_path and documents = documents
          and st = st and q = q])
  have final: "files (wfs (snd (worker_loop load (Some file_path # q) st)))
        (artifact_path file_path) = Some ?c"
    if "artifact_path file_path \<notin> artifact_path ` {p. Some p \<in> set q}"
  proof -
    obtain out st' where r: "worker_loop load q ?st2 = (out, st')"
      by (cases "worker_loop load q ?st2")
    from worker_loop_files [OF r that]
    have "files (wfs st') (artifact_path file_path) = Some ?c" by simp
    then show ?thesis unfolding step r by simp
  qed
  show ?thesis
    using step final by (simp add: artifact_path_eq json_round_trip)
qed

theorem artifact_holds_json_of_joined_pages_witness:
  "files (wfs (snd (worker_loop
       (\<lambda>f. Inr [\<lparr>page_content = ''Hello'', metadata_source = f, metadata_page = 1\<rparr>,
                  \<lparr>page_content = ''World'', metadata_source = f, metadata_page = 2\<rparr>])
       [Some ''/pdfs/a.pdf'', None]
       \<lparr>environ = Map.empty, wfs = \<lparr>files = Map.empty, dirs = {''ocr_results''}\<rparr>,
        trace = [], inbox = []\<rparr>))) ''ocr_results/a.pdf.json''
     = Some (json_dumps (''Hello'' @ blank_line @ ''World'' @ blank_line)) \<and>
   json_loads (json_dumps (''Hello'' @ blank_line @ ''World'' @ blank_line))
     = Some (''Hello'' @ blank_line @ ''World'' @ blank_line)"
proof -
  let ?docs = "\<lambda>f. [\<lparr>page_content = ''Hello'', metadata_source = f, metadata_page = 1\<rparr>,
                  \<lparr>page_content = ''World'', metadata_source = f, metadata_page = (2::nat)\<rparr>]"
  let ?load = "\<lambda>f. (Inr (?docs f) :: error + document list)"
  let ?st = "\<lparr>environ = Map.empty, wfs = \<lparr>files = Map.empty, dirs = {''ocr_results''}\<rparr>,
        trace = [], inbox = []\<rparr>"
  have ap: "artifact_path ''/pdfs/a.pdf'' = ''ocr_results/a.pdf.json''"
    by (simp add: artifact_path_eq basename_def after_last_sep_def sep_def)
  have h1: "?load ''/pdfs/a.pdf'' = Inr (?docs ''/pdfs/a.pdf'')" by simp
  have h2: "''ocr_results'' \<in> dirs (wfs ?st)" by simp
  have h3: "artifact_path ''/pdfs/a.pdf'' \<notin> dirs (wfs ?st)" by (simp add: ap)
  note T = artifact_holds_json_of_joined_pages
    [where load = ?load and file_path = "''/pdfs/a.pdf''" and documents = "?docs ''/pdfs/a.pdf''"
       and st = ?st and q = "[None]"]
  show ?thesis using T h2 h3 by (simp add: ap)
qed

section \<open>Properties of the page loop\<close>

lemma yielded_append: "yielded (xs @ ys) = yielded xs @ yielded ys"
  by (induction xs rule: yielded.induct) auto

lemma parse_pages_run:
  "parse_pages gp p2t name src doc idx st = (err, st') \<Longrightarrow>
   \<exists>k tail. k \<le> length doc \<and>
     ptrace st' = ptrace st @
       concat (map (\<lambda>(i, page). page_events name src i (page_text gp p2t page))
                 (zip [idx..<idx + k] (take k doc))) @ tail \<and>
     yielded tail = [] \<and>
     (err = None \<longrightarrow> k = length doc \<and> tail = []) \<and>
     dirs (pfs st') = dirs (pfs st) \<and>
     (err = None \<longrightarrow>
        files (pfs st') =
          (\<lambda>p. if p \<in> page_image name ` {idx..<idx + length doc} then None
               else files (pfs st) p))"
proof (induction doc arbitrary: idx st)
  case Nil
  then have "err = None" "st' = st" by auto
  then show ?case by (intro exI [of _ 0] exI [of _ "[]"]) auto
next
  case (Cons page doc)
  let ?n = "page_image name idx"
  have stop: ?case if "st' = st" "err \<noteq> None"
    using that by (intro exI [of _ 0] exI [of _ "[]"]) auto
  show ?case
  proof (cases "gp page")
    case (Inl e)
    with Cons.prems have "st' = st" "err = Some e" by auto
    then show ?thesis using stop by simp
  next
    case (Inr pix)
    note gp = this
    show ?thesis
    proof (cases "open_w (pfs st) ?n")
      case (Inl e)
      with gp Cons.prems have "st' = st" "err = Some e" by auto
      then show ?thesis using stop by simp
    next
      case (Inr fs0)
      note opn = this
      then have nd: "?n \<notin> dirs (pfs st)" and fs0: "fs0 = (pfs st)\<lparr>files := (files (pfs st))(?n \<mapsto> [])\<rparr>"
        by (auto simp: open_w_def split: if_splits)
      let ?st1 = "st\<lparr>pfs := write_file fs0 ?n pix, ptrace := ptrace st @ [Saved ?n]\<rparr>"
      have rd: "files (pfs ?st1) ?n = Some pix" by (simp add: write_file_def)
      have d1: "dirs (pfs ?st1) = dirs (pfs st)" by (simp add: write_file_def fs0)
      show ?thesis
      proof (cases "p2t pix")
        case (Inl e)
        with gp opn rd Cons.prems have "st' = ?st1" "err = Some e" by (auto simp: Let_def)
        then show ?thesis using d1
          by (intro exI [of _ 0] exI [of _ "[Saved ?n]"]) auto
      next
        case (Inr outs)
        note rc = this
        let ?st2 = "?st1\<lparr>ptrace := ptrace ?st1 @ [Recognised ?n]\<rparr>"
        show ?thesis
        proof (cases "only_text outs")
          case (Inl e)
          with gp opn rd rc Cons.prems have "st' = ?st2" "err = Some e" by (auto simp: Let_def)
          then show ?thesis using d1
            by (intro exI [of _ 0] exI [of _ "[Saved ?n, Recognised ?n]"]) auto
        next
          case (Inr content)
          note tx = this
          have rm: "os_remove (pfs ?st2) ?n = Inr ((pfs ?st2)\<lparr>files := (files (pfs ?st2))(?n := None)\<rparr>)"
            using nd by (simp add: os_remove_def write_file_def fs0)
          let ?d = "\<lparr>page_content = content, metadata_source = src, metadata_page = idx + 1\<rparr>"
          let ?st3 = "?st2\<lparr>pfs := (pfs ?st2)\<lparr>files := (files (pfs ?st2))(?n := None)\<rparr>,
                           ptrace := ptrace ?st2 @ [Removed ?n, Yielded ?d]\<rparr>"
          have run: "parse_pages gp p2t name src doc (Suc idx) ?st3 = (err, st')"
            using gp opn rd rc tx rm Cons.prems by (simp add: Let_def)
          have pt: "page_text gp p2t page = content"
            by (simp add: page_text_def gp rc tx)
          have tr3: "ptrace ?st3 = ptrace st @ page_events name src idx (page_text gp p2t page)"
            by (simp add: page_events_def pt)
          have f3: "files (pfs ?st3) = (files (pfs st))(?n := None)"
            by (simp add: write_file_def fs0)
          have d3: "dirs (pfs ?st3) = dirs (pfs st)"
            by (simp add: write_file_def fs0)
          from Cons.IH [OF run] obtain k tail where kt:
            "k \<le> length doc"
            "ptrace st' = ptrace ?st3 @
               concat (map (\<lambda>(i, page). page_events name src i (page_text gp p2t page))
                 (zip [Suc idx..<Suc idx + k] (take k doc))) @ tail"
            "yielded tail = []"
            "err = None \<longrightarrow> k = length doc \<and> tail = []"
            "dirs (pfs st') = dirs (pfs ?st3)"
            "err = None \<longrightarrow>
               files (pfs st') =
                 (\<lambda>p. if p \<in> page_image name ` {Suc idx..<Suc idx + length doc} then None
                      else files (pfs ?st3) p)"
            by blast
          have upt: "[idx..<idx + Suc k] = idx # [Suc idx..<Suc idx + k]"
            by (simp add: upt_conv_Cons del: upt_Suc)
          have a: "Suc k \<le> length (page # doc)" using kt(1) by simp
          have b: "ptrace st' = ptrace st @
               concat (map (\<lambda>(i, page). page_events name src i (page_text gp p2t page))
                 (zip [idx..<idx + Suc k] (take (Suc k) (page # doc)))) @ tail"
            unfolding kt(2) tr3 upt by simp
          have c: "err = None \<longrightarrow> Suc k = length (page # doc) \<and> tail = []"
            using kt(4) by simp
          have d: "dirs (pfs st') = dirs (pfs st)" using kt(5) d3 by simp
          have e: "err = None \<longrightarrow>
               files (pfs st') =
                 (\<lambda>p. if p \<in> page_image name ` {idx..<idx + length (page # doc)} then None
                      else files (pfs st) p)"
          proof
            assume "err = None"
            with kt(6) have "files (pfs st') =
                 (\<lambda>p. if p \<in> page_image name ` {Suc idx..<Suc idx + length doc} then None
                      else files (pfs ?st3) p)" by simp
            moreover have "{idx..<idx + length (page # doc)} =
                insert idx {Suc idx..<Suc idx + length doc}" by auto
            ultimately show "files (pfs st') =
                 (\<lambda>p. if p \<in> page_image name ` {idx..<idx + length (page # doc)} then None
                      else files (pfs st) p)"
              unfolding f3 by (auto simp: fun_eq_iff)
          qed
          show ?thesis
            using a b kt(3) c d e by blast
        qed
      qed
    qed
  qed
qed

section \<open>Content of a parsed page\<close>

text \<open>The segments of a page that can be read: every one has a type, and every one that is
  not a reference has a text.\<close>

lemma collect_text_eq:
  assumes "\<forall>out \<in> set outs. out ''type'' \<noteq> None \<and>
             (out ''type'' \<noteq> Some ''Reference'' \<longrightarrow> out ''text'' \<noteq> None)"
  shows "collect_text outs h f b =
    Inr (h @ concat (map (\<lambda>out. the (out ''text''))
               (filter (\<lambda>out. out ''type'' = Some ''Header'') outs)),
         f @ concat (map (\<lambda>out. the (out ''text''))
               (filter (\<lambda>out. out ''type'' = Some ''Footer'') outs)),
         b @ concat (map (\<lambda>out. the (out ''text''))
               (filter (\<lambda>out. out ''type'' \<notin> {Some ''Footer'', Some ''Header'', Some ''Reference''})
                  outs)))"
  using assms
proof (induction outs arbitrary: h f b)
  case Nil
  then show ?case by simp
next
  case (Cons out outs)
  from Cons.prems obtain ty where ty: "out ''type'' = Some ty" by auto
  from Cons.prems have rest: "\<forall>out \<in> set outs. out ''type'' \<noteq> None \<and>
             (out ''type'' \<noteq> Some ''Reference'' \<longrightarrow> out ''text'' \<noteq> None)" by simp
  note IH = Cons.IH [OF rest]
  show ?case
  proof (cases "ty = ''Reference''")
    case True
    then show ?thesis using ty IH by (simp add: getitem_def)
  next
    case False
    with Cons.prems ty obtain t where t: "out ''text'' = Some t" by auto
    show ?thesis using ty t False IH by (simp add: getitem_def)
  qed
qed

lemma collect_text_keys:
  "collect_text outs h f b = Inr r \<Longrightarrow>
   \<forall>out \<in> set outs. out ''type'' \<noteq> None \<and>
      (out ''type'' \<noteq> Some ''Reference'' \<longrightarrow> out ''text'' \<noteq> None)"
proof (induction outs arbitrary: h f b)
  case Nil
  then show ?case by simp
next
  case (Cons out outs)
  from Cons.prems obtain ty where ty: "out ''type'' = Some ty"
    by (cases "out ''type''") (auto simp: getitem_def)
  show ?case
  proof (cases "ty = ''Reference''")
    case True
    with Cons.prems ty have "collect_text outs h f b = Inr r" by (simp add: getitem_def)
    from Cons.IH [OF this] show ?thesis using ty True by simp
  next
    case False
    from Cons.prems ty False obtain t where t: "out ''text'' = Some t"
      by (cases "out ''text''") (auto simp: getitem_def split: if_splits)
    from Cons.prems ty t False obtain h' f' b' where "collect_text outs h' f' b' = Inr r"
      by (auto simp: getitem_def split: if_splits)
    from Cons.IH [OF this] show ?thesis using ty t by simp
  qed
qed

lemma only_text_Inr: "only_text outs = Inr content \<Longrightarrow> content = grouped_text outs"
proof -
  assume a: "only_text outs = Inr content"
  then obtain r where r: "collect_text outs [] [] [] = Inr r"
    by (cases "collect_text outs [] [] []") (auto simp: only_text_def)
  from collect_text_eq [OF collect_text_keys [OF r], of "[]" "[]" "[]"] a
  show ?thesis by (simp add: only_text_def grouped_text_def)
qed

lemma parse_pages_yield:
  "parse_pages gp p2t name src doc idx st = (err, st') \<Longrightarrow>
   \<exists>k. k \<le> length doc \<and>
     yielded (ptrace st') = yielded (ptrace st) @
       map (\<lambda>(i, page). \<lparr>page_content = grouped_text (projr (p2t (projr (gp page)))),
                          metadata_source = src, metadata_page = i + 1\<rparr>)
         (zip [idx..<idx + k] (take k doc)) \<and>
     (err = None \<longrightarrow> k = length doc)"
proof (induction doc arbitrary: idx st)
  case Nil
  then have "err = None" "st' = st" by auto
  then show ?case by (intro exI [of _ 0]) auto
next
  case (Cons page doc)
  let ?n = "page_image name idx"
  have stop: ?case if "yielded (ptrace st') = yielded (ptrace st)" "err \<noteq> None"
    using that by (intro exI [of _ 0]) auto
  show ?case
  proof (cases "gp page")
    case (Inl e)
    with Cons.prems have "st' = st" "err = Some e" by auto
    then show ?thesis using stop by simp
  next
    case (Inr pix)
    note gp = this
    show ?thesis
    proof (cases "open_w (pfs st) ?n")
      case (Inl e)
      with gp Cons.prems have "st' = st" "err = Some e" by auto
      then show ?thesis using stop by simp
    next
      case (Inr fs0)
      note opn = this
      then have nd: "?n \<notin> dirs (pfs st)"
        and fs0: "fs0 = (pfs st)\<lparr>files := (files (pfs st))(?n \<mapsto> [])\<rparr>"
        by (auto simp: open_w_def split: if_splits)
      let ?st1 = "st\<lparr>pfs := write_file fs0 ?n pix, ptrace := ptrace st @ [Saved ?n]\<rparr>"
      have rd: "files (pfs ?st1) ?n = Some pix" by (simp add: write_file_def)
      show ?thesis
      proof (cases "p2t pix")
        case (Inl e)
        with gp opn rd Cons.prems have "st' = ?st1" "err = Some e" by (auto simp: Let_def)
        then show ?thesis using stop by (simp add: yielded_append)
      next
        case (Inr outs)
        note rc = this
        let ?st2 = "?st1\<lparr>ptrace := ptrace ?st1 @ [Recognised ?n]\<rparr>"
        show ?thesis
        proof (cases "only_text outs")
          case (Inl e)
          with gp opn rd rc Cons.prems have "st' = ?st2" "err = Some e" by (auto simp: Let_def)
          then show ?thesis using stop by (simp add: yielded_append)
        next
          case (Inr content)
          note tx = this
          have rm: "os_remove (pfs ?st2) ?n =
              Inr ((pfs ?st2)\<lparr>files := (files (pfs ?st2))(?n := None)\<rparr>)"
            using nd by (simp add: os_remove_def write_file_def fs0)
          let ?d = "\<lparr>page_content = content, metadata_source = src, metadata_page = idx + 1\<rparr>"
          let ?st3 = "?st2\<lparr>pfs := (pfs ?st2)\<lparr>files := (files (pfs ?st2))(?n := None)\<rparr>,
                           ptrace := ptrace ?st2 @ [Removed ?n, Yielded ?d]\<rparr>"
          have run: "parse_pages gp p2t name src doc (Suc idx) ?st3 = (err, st')"
            using gp opn rd rc tx rm Cons.prems by (simp add: Let_def)
          have c: "content = grouped_text (projr (p2t (projr (gp page))))"
            using only_text_Inr [OF tx] by (simp add: gp rc)
          have y3: "yielded (ptrace ?st3) = yielded (ptrace st) @ [?d]"
            by (simp add: yielded_append)
          from Cons.IH [OF run] obtain k where kt:
            "k \<le> length doc"
            "yielded (ptrace st') = yielded (ptrace ?st3) @
               map (\<lambda>(i, page). \<lparr>page_content = grouped_text (projr (p2t (projr (gp page)))),
                          metadata_source = src, metadata_page = i + 1\<rparr>)
                 (zip [Suc idx..<Suc idx + k] (take k doc))"
            "err = None \<longrightarrow> k = length doc"
            by blast
          have upt: "[idx..<idx + Suc k] = idx # [Suc idx..<Suc idx + k]"
            by (simp add: upt_conv_Cons del: upt_Suc)
          have a: "Suc k \<le> length (page # doc)" using kt(1) by simp
          have b: "yielded (ptrace st') = yielded (ptrace st) @
               map (\<lambda>(i, page). \<lparr>page_content = grouped_text (projr (p2t (projr (gp page)))),
                          metadata_source = src, metadata_page = i + 1\<rparr>)
                 (zip [idx..<idx + Suc k] (take (Suc k) (page # doc)))"
            unfolding kt(2) y3 upt using c by simp
          have d: "err = None \<longrightarrow> Suc k = length (page # doc)" using kt(3) by simp
          show ?thesis using a b d by blast
        qed
      qed
    qed
  qed
qed

text \<open>
  Claim C9. The documents the parser yields for a file are, in page order, those of the
  pages it completed (all pages when the parse succeeds), and the content of the document
  of a page is built from the segments the recogniser returned for the image of that page:
  the texts of the \<open>Header\<close> segments, a blank line, the texts of the segments that are
  neither \<open>Footer\<close> nor \<open>Header\<close> nor \<open>Reference\<close>, a blank line, the texts of the
  \<open>Footer\<close> segments and a blank line. Within each group the segments keep the
  recogniser's order, the groups come in this order whatever order the recogniser used,
  and \<open>Reference\<close> segments contribute nothing. For segments that each have a type, and
  a text unless they are references, the loop over the segments computes exactly this
  content.
\<close>

theorem page_content_groups_header_body_footer:
  assumes "fitz_open (blob_path blob) = Inr doc"
  shows "let grouped = (\<lambda>outs.
        concat (map (\<lambda>out. the (out ''text''))
          (filter (\<lambda>out. out ''type'' = Some ''Header'') outs)) @ blank_line @
        concat (map (\<lambda>out. the (out ''text''))
          (filter (\<lambda>out. out ''type'' \<notin> {Some ''Footer'', Some ''Header'', Some ''Reference''})
             outs)) @ blank_line @
        concat (map (\<lambda>out. the (out ''text''))
          (filter (\<lambda>out. out ''type'' = Some ''Footer'') outs)) @ blank_line)
     in (\<exists>k\<le>length doc.
           yielded (ptrace (snd (lazy_parse fitz_open get_pixmap p2t blob fs))) =
             map (\<lambda>(i, page).
                    \<lparr>page_content = grouped (projr (p2t (projr (get_pixmap page)))),
                     metadata_source = blob_source blob, metadata_page = i + 1\<rparr>)
               (zip [0..<k] (take k doc)) \<and>
           (fst (lazy_parse fitz_open get_pixmap p2t blob fs) = None \<longrightarrow> k = length doc)) \<and>
        ((\<forall>out \<in> set outs. out ''type'' \<noteq> None \<and>
             (out ''type'' \<noteq> Some ''Reference'' \<longrightarrow> out ''text'' \<noteq> None)) \<longrightarrow>
           only_text outs = Inr (grouped outs))"
proof -
  let ?N = "splitext_root (basename (blob_path blob))"
  let ?st0 = "\<lparr>pfs = fs, ptrace = []\<rparr>"
  obtain err st where r: "parse_pages get_pixmap p2t ?N (blob_source blob) doc 0 ?st0 = (err, st)"
    by (cases "parse_pages get_pixmap p2t ?N (blob_source blob) doc 0 ?st0")
  have lp: "lazy_parse fitz_open get_pixmap p2t blob fs = (err, st)"
    using assms r by (simp add: lazy_parse_def Let_def)
  from parse_pages_yield [OF r] obtain k where k:
    "k \<le> length doc"
    "yielded (ptrace st) = yielded (ptrace ?st0) @
       map (\<lambda>(i, page). \<lparr>page_content = grouped_text (projr (p2t (projr (get_pixmap page)))),
                          metadata_source = blob_source blob, metadata_page = i + 1\<rparr>)
         (zip [0..<0 + k] (take k doc))"
    "err = None \<longrightarrow> k = length doc"
    by blast
  have pages: "\<exists>k\<le>length doc.
      yielded (ptrace st) =
        map (\<lambda>(i, page). \<lparr>page_content = grouped_text (projr (p2t (projr (get_pixmap page)))),
                          metadata_source = blob_source blob, metadata_page = i + 1\<rparr>)
          (zip [0..<k] (take k doc)) \<and>
      (err = None \<longrightarrow> k = length doc)"
    by (rule exI [of _ k]) (use k in simp)
  have one: "only_text outs = Inr (grouped_text outs)"
    if "\<forall>out \<in> set outs. out ''type'' \<noteq> None \<and>
             (out ''type'' \<noteq> Some ''Reference'' \<longrightarrow> out ''text'' \<noteq> None)"
    using collect_text_eq [OF that, of "[]" "[]" "[]"]
    by (simp add: only_text_def grouped_text_def)
  show ?thesis
    unfolding Let_def lp using pages one
    by (simp add: grouped_text_def [abs_def])
qed

theorem page_content_groups_header_body_footer_witness:
  "map page_content (yielded (ptrace (snd (lazy_parse (\<lambda>p. Inr [''img0'', ''img1'']) (\<lambda>pg. Inr pg)
      (\<lambda>png. Inr [[''type'' \<mapsto> ''Footer'', ''text'' \<mapsto> ''F1''],
                   [''type'' \<mapsto> ''text'', ''text'' \<mapsto> png],
                   [''type'' \<mapsto> ''Reference'', ''text'' \<mapsto> ''R1''],
                   [''type'' \<mapsto> ''Header'', ''text'' \<mapsto> ''H1''],
                   [''type'' \<mapsto> ''Title'', ''text'' \<mapsto> ''B2'']])
      \<lparr>blob_path = ''/pdfs/a.pdf'', blob_source = ''/pdfs/a.pdf''\<rparr>
      \<lparr>files = Map.empty, dirs = {}\<rparr>))))
   = [''H1'' @ blank_line @ ''img0B2'' @ blank_line @ ''F1'' @ blank_line,
      ''H1'' @ blank_line @ ''img1B2'' @ blank_line @ ''F1'' @ blank_line]"
proof -
  let ?open = "\<lambda>p::string. (Inr [''img0'', ''img1''] :: error + string list)"
  let ?gp = "\<lambda>pg::string. (Inr pg :: error + string)"
  let ?p2t = "\<lambda>png::string. (Inr [[''type'' \<mapsto> ''Footer'', ''text'' \<mapsto> ''F1''],
                   [''type'' \<mapsto> ''text'', ''text'' \<mapsto> png],
                   [''type'' \<mapsto> ''Reference'', ''text'' \<mapsto> ''R1''],
                   [''type'' \<mapsto> ''Header'', ''text'' \<mapsto> ''H1''],
                   [''type'' \<mapsto> ''Title'', ''text'' \<mapsto> ''B2'']] :: error + out list)"
  let ?blob = "\<lparr>blob_path = ''/pdfs/a.pdf'', blob_source = ''/pdfs/a.pdf''\<rparr>"
  let ?fs = "\<lparr>files = Map.empty, dirs = {}\<rparr>"
  let ?R = "lazy_parse ?open ?gp ?p2t ?blob ?fs"
  have name: "splitext_root (basename ''/pdfs/a.pdf'') = ''a''"
    by (simp add: splitext_root_def basename_def after_last_sep_def sep_def Let_def)
  have img: "page_image ''a'' 0 = ''a_page_0.png''" "page_image ''a'' (Suc 0) = ''a_page_1.png''"
    by (simp_all add: page_image_def str_nat.simps)
  have ok: "fst ?R = None"
    by (simp add: lazy_parse_def Let_def name img open_w_def path_split_def upto_last_sep_def
          after_last_sep_def sep_def write_file_def only_text_def getitem_def os_remove_def)
  have h: "?open (blob_path ?blob) = Inr [''img0'', ''img1'']" by simp
  note T = page_content_groups_header_body_footer
    [where fitz_open = ?open and blob = ?blob and doc = "[''img0'', ''img1'']"
       and get_pixmap = ?gp and p2t = ?p2t and fs = ?fs and outs = "[]", unfolded Let_def]
  from T h ok obtain k where k: "k = length [''img0'', ''img1'']"
    and y: "yielded (ptrace (snd ?R)) =
      map (\<lambda>(i, page).
             \<lparr>page_content =
                concat (map (\<lambda>out. the (out ''text''))
                  (filter (\<lambda>out. out ''type'' = Some ''Header'')
                     (projr (?p2t (projr (?gp page)))))) @ blank_line @
                concat (map (\<lambda>out. the (out ''text''))
                  (filter (\<lambda>out. out ''type'' \<notin> {Some ''Footer'', Some ''Header'', Some ''Reference''})
                     (projr (?p2t (projr (?gp page)))))) @ blank_line @
                concat (map (\<lambda>out. the (out ''text''))
                  (filter (\<lambda>out. out ''type'' = Some ''Footer'')
                     (projr (?p2t (projr (?gp page)))))) @ blank_line,
              metadata_source = blob_source ?blob, metadata_page = i + 1\<rparr>)
        (zip [0..<k] (take k [''img0'', ''img1'']))"
    by auto
  show ?thesis
    unfolding y k by (simp add: upt_rec)
qed

section \<open>Temporary page images\<close>

text \<open>
  Claim C10. Whatever happens during a parse, its events are, for the pages \<open>0, ..., k-1\<close>
  it completed, the four events of a page in order: the image \<open><pdf_name>_page_<idx>.png\<close>
  is saved, recognised, removed, and then the page's document is yielded; what follows
  them yields nothing. So the image of a page is removed before its document is yielded.
  When the parse succeeds, all pages are completed, and afterwards no file exists at the
  image path of any page while every other path and the directories are as before.
\<close>

theorem page_images_removed_before_yield:
  assumes "fitz_open (blob_path blob) = Inr doc"
  shows "\<exists>k tail. k \<le> length doc \<and>
     ptrace (snd (lazy_parse fitz_open get_pixmap p2t blob fs)) =
       concat (map (\<lambda>(i, page). page_events (splitext_root (basename (blob_path blob)))
                      (blob_source blob) i (page_text get_pixmap p2t page))
                 (zip [0..<k] (take k doc))) @ tail \<and>
     yielded tail = [] \<and>
     (fst (lazy_parse fitz_open get_pixmap p2t blob fs) = None \<longrightarrow>
        k = length doc \<and> tail = [] \<and>
        dirs (pfs (snd (lazy_parse fitz_open get_pixmap p2t blob fs))) = dirs fs \<and>
        files (pfs (snd (lazy_parse fitz_open get_pixmap p2t blob fs))) =
          (\<lambda>p. if p \<in> page_image (splitext_root (basename (blob_path blob))) ` {0..<length doc}
               then None else files fs p))"
proof -
  let ?N = "splitext_root (basename (blob_path blob))"
  let ?st0 = "\<lparr>pfs = fs, ptrace = []\<rparr>"
  obtain err st where r: "parse_pages get_pixmap p2t ?N (blob_source blob) doc 0 ?st0 = (err, st)"
    by (cases "parse_pages get_pixmap p2t ?N (blob_source blob) doc 0 ?st0")
  have lp: "lazy_parse fitz_open get_pixmap p2t blob fs = (err, st)"
    using assms r by (simp add: lazy_parse_def Let_def)
  from parse_pages_run [OF r] obtain k tail where kt:
    "k \<le> length doc"
    "ptrace st = ptrace ?st0 @
       concat (map (\<lambda>(i, page). page_events ?N (blob_source blob) i (page_text get_pixmap p2t page))
                 (zip [0..<0 + k] (take k doc))) @ tail"
    "yielded tail = []"
    "err = None \<longrightarrow> k = length doc \<and> tail = []"
    "dirs (pfs st) = dirs (pfs ?st0)"
    "err = None \<longrightarrow>
        files (pfs st) =
          (\<lambda>p. if p \<in> page_image ?N ` {0..<0 + length doc} then None else files (pfs ?st0) p)"
    by blast
  show ?thesis
    unfolding lp
    by (rule exI [of _ k], rule exI [of _ tail]) (use kt in \<open>simp cong: if_cong\<close>)
qed

theorem page_images_removed_before_yield_witness:
  "fst (lazy_parse (\<lambda>p. Inr [''img0'', ''img1'']) (\<lambda>pg. Inr pg)
          (\<lambda>png. Inr [[''type'' \<mapsto> ''text'', ''text'' \<mapsto> png]])
          \<lparr>blob_path = ''/pdfs/a.pdf'', blob_source = ''/pdfs/a.pdf''\<rparr>
          \<lparr>files = [''a_page_1.png'' \<mapsto> ''old'', ''keep.txt'' \<mapsto> ''k''], dirs = {}\<rparr>) = None \<and>
   files (pfs (snd (lazy_parse (\<lambda>p. Inr [''img0'', ''img1'']) (\<lambda>pg. Inr pg)
          (\<lambda>png. Inr [[''type'' \<mapsto> ''text'', ''text'' \<mapsto> png]])
          \<lparr>blob_path = ''/pdfs/a.pdf'', blob_source = ''/pdfs/a.pdf''\<rparr>
          \<lparr>files = [''a_page_1.png'' \<mapsto> ''old'', ''keep.txt'' \<mapsto> ''k''], dirs = {}\<rparr>)))
      ''a_page_1.png'' = None \<and>
   files (pfs (snd (lazy_parse (\<lambda>p. Inr [''img0'', ''img1'']) (\<lambda>pg. Inr pg)
          (\<lambda>png. Inr [[''type'' \<mapsto> ''text'', ''text'' \<mapsto> png]])
          \<lparr>blob_path = ''/pdfs/a.pdf'', blob_source = ''/pdfs/a.pdf''\<rparr>
          \<lparr>files = [''a_page_1.png'' \<mapsto> ''old'', ''keep.txt'' \<mapsto> ''k''], dirs = {}\<rparr>)))
      ''keep.txt'' = Some ''k''"
proof -
  let ?open = "\<lambda>p::string. (Inr [''img0'', ''img1''] :: error + string list)"
  let ?gp = "\<lambda>pg::string. (Inr pg :: error + string)"
  let ?p2t = "\<lambda>png::string. (Inr [[''type'' \<mapsto> ''text'', ''text'' \<mapsto> png]] :: error + out list)"
  let ?blob = "\<lparr>blob_path = ''/pdfs/a.pdf'', blob_source = ''/pdfs/a.pdf''\<rparr>"
  let ?fs = "\<lparr>files = [''a_page_1.png'' \<mapsto> ''old'', ''keep.txt'' \<mapsto> ''k''], dirs = {}\<rparr>"
  let ?R = "lazy_parse ?open ?gp ?p2t ?blob ?fs"
  have name: "splitext_root (basename ''/pdfs/a.pdf'') = ''a''"
    by (simp add: splitext_root_def basename_def after_last_sep_def sep_def Let_def)
  have img: "page_image ''a'' 0 = ''a_page_0.png''" "page_image ''a'' (Suc 0) = ''a_page_1.png''"
    by (simp_all add: page_image_def str_nat.simps)
  have ok: "fst ?R = None"
    by (simp add: lazy_parse_def Let_def name img open_w_def path_split_def upto_last_sep_def
          after_last_sep_def sep_def write_file_def only_text_def getitem_def os_remove_def)
  have h: "?open (blob_path ?blob) = Inr [''img0'', ''img1'']" by simp
  from page_images_removed_before_yield
    [where fitz_open = ?open and blob = ?blob and doc = "[''img0'', ''img1'']"
       and get_pixmap = ?gp and p2t = ?p2t and fs = ?fs] h ok
  have f: "files (pfs (snd ?R)) =
      (\<lambda>p. if p \<in> page_image (splitext_root (basename (blob_path ?blob))) ` {0..<length [''img0'', ''img1'']}
           then None else files ?fs p)"
    by blast
  have set2: "{0..<length [''img0'', ''img1'']} = {0, 1::nat}" by auto
  have "files (pfs (snd ?R)) ''a_page_1.png'' = None"
    unfolding f set2 by (simp add: name img)
  moreover have "files (pfs (snd ?R)) ''keep.txt'' = Some ''k''"
    unfolding f set2 by (simp add: name img)
  ultimately show ?thesis using ok by simp
qed

end
